theory Spec2Isabelle
  imports Main
begin

section \<open>Data model\<close>

text \<open>
  The query builders of \<^verbatim>\<open>src/querybuilder\<close> are mutable objects that point at each
  other: a builder holds its children in \<^verbatim>\<open>additionalQueries\<close> and its parent in
  \<^verbatim>\<open>_parent\<close>, and every generated name draws its number from the \<^verbatim>\<open>_tick\<close> field of the
  topmost parent. The embedding therefore keeps an explicit store from references to
  builder states; every method takes the reference \<open>this\<close> and the store, and returns the
  updated store.
\<close>

subsection \<open>Values of \<^verbatim>\<open>arango-query-options.interface\<close>\<close>

text \<open>
  \<^verbatim>\<open>Primitive = string | number | boolean | undefined | null\<close>. Numbers are only carried
  through to the bind variables and printed, never computed with; they are integers here.
\<close>

datatype primitive = PString string | PNumber int | PBoolean bool | PUndefined | PNull

text \<open>
  A value inside a \<^verbatim>\<open>Filter\<close>: a primitive, an array of primitives, or an object, given by
  its own enumerable keys in \<^verbatim>\<open>for ... in\<close> order. A \<^verbatim>\<open>FilterObj\<close> is the object with the
  keys \<^verbatim>\<open>@value\<close>, \<^verbatim>\<open>@operator\<close> and \<^verbatim>\<open>@docNameToFilter\<close>.
\<close>

datatype jsval = Prim primitive | PrimArray "primitive list" | Object "(string \<times> jsval) list"

type_synonym Filter = "(string \<times> jsval) list"

type_synonym BindVars = "string \<rightharpoonup> jsval"

text \<open>\<^verbatim>\<open>AqlQuery = { query, bindVars }\<close>, as a pair.\<close>

type_synonym AqlQuery = "string \<times> BindVars"

datatype SortOrder = ASC | DESC

record SortBy =
  field :: string
  order :: SortOrder

record LimitBy =
  offset :: int
  limit :: int

datatype Direction = Outbound | Inbound | Any

text \<open>
  \<^verbatim>\<open>ArangoDocumentQueryOptions | ArangoEdgeQueryOptions\<close> as one record with the fields of
  both: the document builder reads \<open>documentCollection\<close>, the edge builder the edge fields,
  and \<open>relatedCollections\<close> is absent (\<open>None\<close>) in document options. \<open>filterBy\<close> holds the
  \<^verbatim>\<open>filter\<close> member of \<^verbatim>\<open>FilterBy\<close>; an absent \<^verbatim>\<open>withCount\<close> is \<open>False\<close>.
\<close>

record options =
  sortBy :: "SortBy option"
  limitBy :: "LimitBy option"
  filterBy :: "Filter option"
  withCount :: bool
  documentCollection :: string
  edgeCollections :: "string + string list"
  relatedCollections :: "(string + string list) option"
  startingVertexId :: "string option"
  depth :: "int option"
  direction :: "Direction option"

subsection \<open>Builders and the store\<close>

type_synonym ref = nat

datatype builder_class =
  ArangoBaseQueryBuilder | ArangoDocumentQueryBuilder | ArangoEdgeQueryBuilder
  | ArangoViewQueryBuilder

text \<open>
  The fields of \<^verbatim>\<open>ArangoBaseQueryBuilder\<close> and of \<^verbatim>\<open>ArangoEdgeQueryBuilder\<close>. The clause
  fields \<^verbatim>\<open>filter\<close>, \<^verbatim>\<open>sort\<close>, \<^verbatim>\<open>limit\<close> and the edge builder's \<^verbatim>\<open>startingVertexId\<close> carry a
  prime, the private fields \<^verbatim>\<open>_isRootQuery\<close>, \<^verbatim>\<open>_tick\<close>, \<^verbatim>\<open>_parent\<close> the prefix \<open>priv\<close>.
  \<open>additionalQueries\<close> is the JavaScript \<^verbatim>\<open>Map\<close> in insertion order.
\<close>

record builder =
  cls :: builder_class
  options :: options
  bindVars :: BindVars
  additionalQueries :: "(string \<times> ref) list"
  withClause :: string
  selector :: string
  filter' :: string
  sort' :: string
  limit' :: string
  doc :: string
  returnClause :: string
  inlineQueries :: string
  priv_isRootQuery :: bool
  priv_tick :: nat
  priv_parent :: "ref option"
  edges :: string
  rootDoc :: string
  startingVertexId' :: string

type_synonym store = "ref \<Rightarrow> builder"

subsection \<open>Errors and results\<close>

text \<open>
  The code throws \<^verbatim>\<open>Error\<close> with a message; the constructors name the messages:
  \<open>NotImplemented\<close> is \<^verbatim>\<open>'Override this method'\<close>, \<open>UnsafeIdentifier p\<close> is
  \<^verbatim>\<open>'This phrase does not seem safe and cannot be used in the query: ' + p\<close>,
  \<open>DuplicateFieldName\<close> is \<^verbatim>\<open>'Additional query variable name cannot be same with doc selector'\<close>,
  \<open>InvalidVertexReference\<close> is \<^verbatim>\<open>'startingVertexId must be an ArangoDB document ID. ...'\<close>,
  \<open>MissingStartingVertex\<close> is \<^verbatim>\<open>'You must provide startingVertexId in options'\<close>, and
  \<open>TypeError\<close> is what the engine throws when a property of \<^verbatim>\<open>null\<close> or \<^verbatim>\<open>undefined\<close>
  is read.
\<close>

datatype error =
  NotImplemented | UnsafeIdentifier string | DuplicateFieldName
  | InvalidVertexReference | MissingStartingVertex | TypeError

text \<open>
  A call returns a value and the new store, throws, or does not return: \<open>Diverges\<close> stands
  for a parent walk that never ends and for a recursion over children that is deeper than
  the fuel it was given.
\<close>

datatype 'a result = Diverges | Throws error | Returns 'a store

fun bind :: "'a result \<Rightarrow> ('a \<Rightarrow> store \<Rightarrow> 'b result) \<Rightarrow> 'b result" where
  "bind Diverges f = Diverges"
| "bind (Throws e) f = Throws e"
| "bind (Returns a s) f = f a s"

section \<open>Strings\<close>

text \<open>The decimal digits of a tick, as a template literal prints a number.\<close>

definition digit_char :: "nat \<Rightarrow> char" where
  "digit_char d = ''0123456789'' ! d"

function string_of_nat :: "nat \<Rightarrow> string" where
  "string_of_nat n = (if n < 10 then [digit_char n] else string_of_nat (n div 10) @ [digit_char (n mod 10)])"
  by pat_completeness auto
termination
  by (relation "measure id") auto

declare string_of_nat.simps [simp del]

text \<open>\<^verbatim>\<open>String.prototype.split\<close> with a one-character separator.\<close>

fun split :: "char \<Rightarrow> string \<Rightarrow> string list" where
  "split sep [] = [[]]"
| "split sep (c # cs) =
     (if c = sep then [] # split sep cs
      else (case split sep cs of [] \<Rightarrow> [[c]] | x # xs \<Rightarrow> (c # x) # xs))"

text \<open>\<^verbatim>\<open>Array.prototype.join\<close>.\<close>

fun join :: "string \<Rightarrow> string list \<Rightarrow> string" where
  "join sep [] = []"
| "join sep [x] = x"
| "join sep (x # y # ys) = x @ sep @ join sep (y # ys)"

subsection \<open>The identifier guard\<close>

text \<open>Character classes by code point: \<^verbatim>\<open>A-Z\<close> is 65 to 90, \<^verbatim>\<open>a-z\<close> is 97 to 122 and
  \<^verbatim>\<open>0-9\<close> is 48 to 57.\<close>

definition is_alpha :: "char \<Rightarrow> bool" where
  "is_alpha c \<longleftrightarrow> (let n = (of_char c :: nat) in (65 \<le> n \<and> n \<le> 90) \<or> (97 \<le> n \<and> n \<le> 122))"

definition is_digit :: "char \<Rightarrow> bool" where
  "is_digit c \<longleftrightarrow> (let n = (of_char c :: nat) in 48 \<le> n \<and> n \<le> 57)"

text \<open>The class \<^verbatim>\<open>[A-Za-z0-9\-_]\<close>.\<close>

definition is_ident_char :: "char \<Rightarrow> bool" where
  "is_ident_char c \<longleftrightarrow> is_alpha c \<or> is_digit c \<or> c = CHR ''-'' \<or> c = CHR ''_''"

text \<open>\<^verbatim>\<open>/^[A-Za-z][A-Za-z0-9\-_]*$/.test(phrase)\<close>: without the \<^verbatim>\<open>m\<close> flag the anchors are the
  two ends of the string.\<close>

fun safe_phrase :: "string \<Rightarrow> bool" where
  "safe_phrase [] = False"
| "safe_phrase (c # cs) = (is_alpha c \<and> list_all is_ident_char cs)"

definition checkSafe :: "string \<Rightarrow> store \<Rightarrow> unit result" where
  "checkSafe phrase s = (if \<not> safe_phrase phrase then Throws (UnsafeIdentifier phrase) else Returns () s)"

section \<open>The tick protocol\<close>

definition isRootQuery :: "ref \<Rightarrow> store \<Rightarrow> bool" where
  "isRootQuery this s = priv_isRootQuery (s this)"

definition getParentQuery :: "ref \<Rightarrow> store \<Rightarrow> ref option" where
  "getParentQuery this s = priv_parent (s this)"

definition setParentQuery :: "ref \<Rightarrow> ref \<Rightarrow> store \<Rightarrow> store" where
  "setParentQuery this parent s = s(this := (s this)\<lparr>priv_isRootQuery := False, priv_parent := Some parent\<rparr>)"

text \<open>The \<^verbatim>\<open>while (true)\<close> loop of \<^verbatim>\<open>getTopmostParentQuery\<close>; \<open>None\<close> when it never exits.\<close>

partial_function (option) topmost_loop :: "store \<Rightarrow> ref \<Rightarrow> ref option" where
  "topmost_loop s parent =
     (case getParentQuery parent s of
        None \<Rightarrow> Some parent
      | Some localParent \<Rightarrow>
          if isRootQuery localParent s then Some localParent else topmost_loop s localParent)"

definition getTopmostParentQuery :: "ref \<Rightarrow> store \<Rightarrow> ref option" where
  "getTopmostParentQuery this s =
     (case priv_parent (s this) of
        None \<Rightarrow> Some this
      | Some p \<Rightarrow> if isRootQuery p s then Some p else topmost_loop s p)"

definition getNextTick :: "ref \<Rightarrow> store \<Rightarrow> nat result" where
  "getNextTick this s =
     (let s' = s(this := (s this)\<lparr>priv_tick := priv_tick (s this) + 1\<rparr>)
      in Returns (priv_tick (s' this)) s')"

definition getNextGlobalTick :: "ref \<Rightarrow> store \<Rightarrow> nat result" where
  "getNextGlobalTick this s =
     (case getTopmostParentQuery this s of
        None \<Rightarrow> Diverges
      | Some root \<Rightarrow> getNextTick root s)"

section \<open>Filter flattening\<close>

definition checkPrimitive :: "primitive \<Rightarrow> bool" where
  "checkPrimitive input = (case input of PString _ \<Rightarrow> True | PNumber _ \<Rightarrow> True | PBoolean _ \<Rightarrow> True
                             | PUndefined \<Rightarrow> True | PNull \<Rightarrow> True)"

fun isFilterPrimitiveType :: "jsval \<Rightarrow> bool" where
  "isFilterPrimitiveType (Prim p) = checkPrimitive p"
| "isFilterPrimitiveType (PrimArray ps) = list_all checkPrimitive ps"
| "isFilterPrimitiveType (Object es) = False"

definition hasOwnProperty :: "(string \<times> jsval) list \<Rightarrow> string \<Rightarrow> bool" where
  "hasOwnProperty es k \<longleftrightarrow> map_of es k \<noteq> None"

text \<open>Reading a property that is absent gives \<^verbatim>\<open>undefined\<close>.\<close>

definition property :: "(string \<times> jsval) list \<Rightarrow> string \<Rightarrow> jsval" where
  "property es k = (case map_of es k of None \<Rightarrow> Prim PUndefined | Some v \<Rightarrow> v)"

text \<open>
  \<^verbatim>\<open>isFilterProperFilterObject\<close> is only reached, behind the \<^verbatim>\<open>||\<close>, for a value that is not
  of primitive type, which is an object here.
\<close>

fun isFilterProperFilterObject :: "jsval \<Rightarrow> bool" where
  "isFilterProperFilterObject (Object es) =
     (hasOwnProperty es ''@value'' \<and> isFilterPrimitiveType (property es ''@value'')
      \<and> (hasOwnProperty es ''@operator'' \<or> hasOwnProperty es ''@docNameToFilter''))"
| "isFilterProperFilterObject _ = False"

text \<open>
  \<^verbatim>\<open>filter[key]['@...']\<close>: the three marker properties of a leaf. A string, number, boolean
  or array has none of them; reading them from \<^verbatim>\<open>null\<close> or \<^verbatim>\<open>undefined\<close> throws.
\<close>

fun markers :: "jsval \<Rightarrow> string \<Rightarrow> jsval option" where
  "markers (Prim PNull) k = None"
| "markers (Prim PUndefined) k = None"
| "markers (Prim p) k = Some (Prim PUndefined)"
| "markers (PrimArray ps) k = Some (Prim PUndefined)"
| "markers (Object es) k = Some (property es k)"

text \<open>The operator \<^verbatim>\<open>??\<close>.\<close>

definition nullish :: "jsval \<Rightarrow> bool" where
  "nullish v \<longleftrightarrow> v = Prim PUndefined \<or> v = Prim PNull"

definition coalesce :: "jsval \<Rightarrow> jsval \<Rightarrow> jsval" where
  "coalesce a b = (if nullish a then b else a)"

text \<open>What a template literal prints for a value.\<close>

definition string_of_int :: "int \<Rightarrow> string" where
  "string_of_int i = (if i < 0 then ''-'' @ string_of_nat (nat (- i)) else string_of_nat (nat i))"

fun string_of_primitive :: "primitive \<Rightarrow> string" where
  "string_of_primitive (PString x) = x"
| "string_of_primitive (PNumber i) = string_of_int i"
| "string_of_primitive (PBoolean b) = (if b then ''true'' else ''false'')"
| "string_of_primitive PUndefined = ''undefined''"
| "string_of_primitive PNull = ''null''"

definition string_of_element :: "primitive \<Rightarrow> string" where
  "string_of_element p = (if p = PUndefined \<or> p = PNull then [] else string_of_primitive p)"

fun toString :: "jsval \<Rightarrow> string" where
  "toString (Prim p) = string_of_primitive p"
| "toString (PrimArray ps) = join '','' (map string_of_element ps)"
| "toString (Object es) = ''[object Object]''"

definition set_bindVar :: "ref \<Rightarrow> string \<Rightarrow> jsval \<Rightarrow> store \<Rightarrow> store" where
  "set_bindVar this k v s = s(this := (s this)\<lparr>bindVars := (bindVars (s this))(k \<mapsto> v)\<rparr>)"

text \<open>The body of the loop of \<^verbatim>\<open>extractFilters\<close> for a leaf (lines 248 to 258).\<close>

definition leafFilter :: "ref \<Rightarrow> string \<Rightarrow> jsval \<Rightarrow> string \<Rightarrow> store \<Rightarrow> AqlQuery result" where
  "leafFilter this key v prevKey s =
     (let objectKey = prevKey @ key in
      bind (getNextGlobalTick this s) (\<lambda>t1 s1.
      let docPath = ''path_'' @ string_of_nat t1 in
      bind (getNextGlobalTick this s1) (\<lambda>t2 s2.
      let bindVarName = ''filter_'' @ string_of_nat t2 in
      case (markers v ''@docNameToFilter'', markers v ''@operator'', markers v ''@value'') of
        (Some docName, Some operator, Some val) \<Rightarrow>
          let query = toString (coalesce docName (Prim (PString (doc (s2 this))))) @ ''.@'' @ docPath
                      @ '' '' @ toString (coalesce operator (Prim (PString ''==''))) @ '' @'' @ bindVarName;
              bindVars = [docPath \<mapsto> PrimArray (map PString (split CHR ''.'' objectKey)),
                          bindVarName \<mapsto> coalesce val v]
          in Returns (query, bindVars) s2
      | _ \<Rightarrow> Throws TypeError)))"

text \<open>
  \<^verbatim>\<open>extractFilters(filter, prevKey)\<close>, by recursion over the entries still to visit. The
  variable \<^verbatim>\<open>prevKey\<close> is assigned in the loop (\<^verbatim>\<open>prevKey += `${key}.`\<close>), so the entries after
  a nested one are visited with the longer prefix. The top call passes \<^verbatim>\<open>''\<close>
  (\<^verbatim>\<open>prevKey ??= ''\<close>).
\<close>

function extractFilters :: "ref \<Rightarrow> Filter \<Rightarrow> string \<Rightarrow> store \<Rightarrow> AqlQuery list result" where
  "extractFilters this [] prevKey s = Returns [] s"
| "extractFilters this ((key, Prim p) # rest) prevKey s =
     bind (leafFilter this key (Prim p) prevKey s) (\<lambda>f s1.
     bind (extractFilters this rest prevKey s1) (\<lambda>fs s2. Returns (f # fs) s2))"
| "extractFilters this ((key, PrimArray ps) # rest) prevKey s =
     bind (leafFilter this key (PrimArray ps) prevKey s) (\<lambda>f s1.
     bind (extractFilters this rest prevKey s1) (\<lambda>fs s2. Returns (f # fs) s2))"
| "extractFilters this ((key, Object es) # rest) prevKey s =
     (if isFilterPrimitiveType (Object es) \<or> isFilterProperFilterObject (Object es) then
        bind (leafFilter this key (Object es) prevKey s) (\<lambda>f s1.
        bind (extractFilters this rest prevKey s1) (\<lambda>fs s2. Returns (f # fs) s2))
      else
        let prevKey' = prevKey @ key @ ''.'' in
        bind (extractFilters this es prevKey' s) (\<lambda>inner s1.
        bind (extractFilters this rest prevKey' s1) (\<lambda>fs s2. Returns (inner @ fs) s2)))"
  by pat_completeness auto
termination
  by (relation "measure (\<lambda>(this, es, prevKey, s). size_list (size_prod (\<lambda>_. 0) size) es)") auto

section \<open>The build steps of \<^verbatim>\<open>ArangoBaseQueryBuilder\<close>\<close>

definition buildFilter :: "ref \<Rightarrow> store \<Rightarrow> unit result" where
  "buildFilter this s =
     (case filterBy (options (s this)) of
        None \<Rightarrow> Returns () s
      | Some f \<Rightarrow>
          bind (extractFilters this f [] s) (\<lambda>filters s1.
          let s2 = s1(this := (s1 this)\<lparr>filter' := ''FILTER '' @ join '' && '' (map fst filters) @ '' ''\<rparr>);
              s3 = s2(this := (s2 this)\<lparr>bindVars := fold (\<lambda>f bv. snd f ++ bv) filters (bindVars (s2 this))\<rparr>)
          in Returns () s3))"

definition buildSort :: "ref \<Rightarrow> store \<Rightarrow> unit result" where
  "buildSort this s =
     (case sortBy (options (s this)) of
        None \<Rightarrow> Returns () s
      | Some sb \<Rightarrow>
          bind (getNextGlobalTick this s) (\<lambda>t1 s1.
          let sortFieldKeyName = ''sortField_'' @ string_of_nat t1 in
          bind (getNextGlobalTick this s1) (\<lambda>t2 s2.
          let sortOrderKeyName = ''sortOrder_'' @ string_of_nat t2;
              s3 = s2(this := (s2 this)\<lparr>sort' := ''SORT '' @ doc (s2 this) @ ''.@'' @ sortFieldKeyName
                                                    @ '' @'' @ sortOrderKeyName @ '' ''\<rparr>);
              s4 = set_bindVar this sortFieldKeyName (PrimArray (map PString (split CHR ''.'' (field sb)))) s3;
              s5 = set_bindVar this sortOrderKeyName
                     (Prim (PString (case order sb of ASC \<Rightarrow> ''ASC'' | DESC \<Rightarrow> ''DESC''))) s4
          in Returns () s5)))"

definition buildLimit :: "ref \<Rightarrow> store \<Rightarrow> unit result" where
  "buildLimit this s =
     (case limitBy (options (s this)) of
        None \<Rightarrow> Returns () s
      | Some lb \<Rightarrow>
          bind (getNextGlobalTick this s) (\<lambda>t1 s1.
          let offsetKeyName = ''limitByOffset_'' @ string_of_nat t1 in
          bind (getNextGlobalTick this s1) (\<lambda>t2 s2.
          let limitKeyName = ''limitByLimit_'' @ string_of_nat t2;
              s3 = s2(this := (s2 this)\<lparr>limit' := ''LIMIT @'' @ offsetKeyName @ '', @'' @ limitKeyName @ '' ''\<rparr>);
              s4 = set_bindVar this offsetKeyName (Prim (PNumber (offset lb))) s3;
              s5 = set_bindVar this limitKeyName (Prim (PNumber (limit lb))) s4
          in Returns () s5)))"

text \<open>The loop of \<^verbatim>\<open>handleCommaSeparated\<close>, over the values still to visit.\<close>

fun handleCommaSeparated_loop :: "ref \<Rightarrow> string list \<Rightarrow> string \<Rightarrow> string \<Rightarrow> store \<Rightarrow> string result" where
  "handleCommaSeparated_loop this [] keyNameInput statement s = Returns statement s"
| "handleCommaSeparated_loop this (v # vs) keyNameInput statement s =
     bind (getNextGlobalTick this s) (\<lambda>t s1.
     let keyName = keyNameInput @ ''_'' @ string_of_nat t;
         statement1 = statement @ ''@@'' @ keyName;
         statement2 = (if vs \<noteq> [] then statement1 @ '', '' else statement1);
         s2 = set_bindVar this (''@'' @ keyName) (Prim (PString v)) s1
     in handleCommaSeparated_loop this vs keyNameInput statement2 s2)"

definition handleCommaSeparated :: "ref \<Rightarrow> string list \<Rightarrow> string \<Rightarrow> store \<Rightarrow> string result" where
  "handleCommaSeparated this values keyNameInput s =
     bind (checkSafe keyNameInput s) (\<lambda>_ s1.
     if values = [] then Returns [] s1
     else handleCommaSeparated_loop this values keyNameInput [] s1)"

definition concatArrays :: "string list \<Rightarrow> string + string list \<Rightarrow> string list" where
  "concatArrays array1 array2 = (case array2 of Inr xs \<Rightarrow> array1 @ xs | Inl x \<Rightarrow> array1 @ [x])"

text \<open>Truthiness of \<^verbatim>\<open>options.relatedCollections\<close>: absent and the empty string are falsy,
  every array is truthy.\<close>

definition truthy_collections :: "(string + string list) option \<Rightarrow> (string + string list) option" where
  "truthy_collections rc =
     (case rc of None \<Rightarrow> None | Some (Inl x) \<Rightarrow> if x \<noteq> [] then Some (Inl x) else None
               | Some (Inr xs) \<Rightarrow> Some (Inr xs))"

text \<open>
  \<^verbatim>\<open>gatherRelatedCollectionsRecursively\<close> reads the store only. The recursion follows the
  children, which nothing bounds in a store; it carries fuel, and \<open>None\<close> is a recursion
  deeper than the fuel.
\<close>

fun gather_loop :: "(ref \<Rightarrow> string list option) \<Rightarrow> (string \<times> ref) list \<Rightarrow> string list \<Rightarrow> string list option" where
  "gather_loop rec [] targets = Some targets"
| "gather_loop rec (elem # elems) targets =
     (case rec (snd elem) of
        None \<Rightarrow> None
      | Some ts \<Rightarrow> gather_loop rec elems (concatArrays targets (Inr ts)))"

fun gatherRelatedCollectionsRecursively :: "nat \<Rightarrow> store \<Rightarrow> ref \<Rightarrow> string list option" where
  "gatherRelatedCollectionsRecursively 0 s this = None"
| "gatherRelatedCollectionsRecursively (Suc fuel) s this =
     (let targets = [];
          targets = (case truthy_collections (relatedCollections (options (s this))) of
                       Some rc \<Rightarrow> concatArrays targets rc
                     | None \<Rightarrow> targets)
      in gather_loop (gatherRelatedCollectionsRecursively fuel s) (additionalQueries (s this)) targets)"

definition buildWithClause :: "nat \<Rightarrow> ref \<Rightarrow> store \<Rightarrow> unit result" where
  "buildWithClause fuel this s =
     (if priv_isRootQuery (s this) then
        (case gatherRelatedCollectionsRecursively fuel s this of
           None \<Rightarrow> Diverges
         | Some targets \<Rightarrow>
             if length targets > 0 then
               bind (handleCommaSeparated this targets ''target'' s) (\<lambda>statement s1.
               Returns () (s1(this := (s1 this)\<lparr>withClause := ''WITH '' @ statement @ '' ''\<rparr>)))
             else Returns () s)
      else Returns () s)"

definition buildReturnClause :: "ref \<Rightarrow> store \<Rightarrow> unit result" where
  "buildReturnClause this s =
     (if length (additionalQueries (s this)) = 0 then
        Returns () (s(this := (s this)\<lparr>returnClause := doc (s this)\<rparr>))
      else
        Returns () (s(this := (s this)\<lparr>returnClause :=
          ''MERGE('' @ doc (s this) @ '', { '' @ join '', '' (map fst (additionalQueries (s this))) @ '' })''\<rparr>)))"

text \<open>
  The loop of \<^verbatim>\<open>buildAdditionalQueries\<close>; \<open>prep\<close> is \<^verbatim>\<open>prepareQuery\<close> of a child.
\<close>

definition limit_is_one :: "options \<Rightarrow> bool" where
  "limit_is_one opts = (case limitBy opts of None \<Rightarrow> False | Some lb \<Rightarrow> limit lb = 1)"

fun buildAdditionalQueries_loop ::
  "(ref \<Rightarrow> store \<Rightarrow> AqlQuery result) \<Rightarrow> ref \<Rightarrow> (string \<times> ref) list \<Rightarrow> string list \<Rightarrow> store \<Rightarrow> string list result" where
  "buildAdditionalQueries_loop prep this [] queries s = Returns queries s"
| "buildAdditionalQueries_loop prep this (elem # elems) queries s =
     bind (prep (snd elem) s) (\<lambda>innerAqlQuery s1.
     let queries1 = queries @
           [''LET '' @ fst elem @ '' = ''
            @ (if withCount (options (s1 (snd elem))) \<or> limit_is_one (options (s1 (snd elem)))
               then ''FIRST'' else [])
            @ ''('' @ fst innerAqlQuery @ '') ''];
         s2 = s1(this := (s1 this)\<lparr>bindVars := snd innerAqlQuery ++ bindVars (s1 this)\<rparr>)
     in buildAdditionalQueries_loop prep this elems queries1 s2)"

definition buildAdditionalQueries :: "(ref \<Rightarrow> store \<Rightarrow> AqlQuery result) \<Rightarrow> ref \<Rightarrow> store \<Rightarrow> unit result" where
  "buildAdditionalQueries prep this s =
     (if length (additionalQueries (s this)) = 0 then Returns () s
      else
        bind (buildAdditionalQueries_loop prep this (additionalQueries (s this)) [] s) (\<lambda>queries s1.
        Returns () (s1(this := (s1 this)\<lparr>inlineQueries := concat queries\<rparr>))))"

section \<open>The selectors of the document and the edge builder\<close>

definition buildSelector_Document :: "ref \<Rightarrow> store \<Rightarrow> unit result" where
  "buildSelector_Document this s =
     bind (checkSafe (documentCollection (options (s this))) s) (\<lambda>_ s0.
     bind (getNextGlobalTick this s0) (\<lambda>t s1.
     let collectionKey = ''collection_'' @ string_of_nat t;
         s2 = s1(this := (s1 this)\<lparr>selector := ''FOR '' @ doc (s1 this) @ '' IN @@'' @ collectionKey @ '' ''\<rparr>);
         s3 = set_bindVar this (''@'' @ collectionKey) (Prim (PString (documentCollection (options (s2 this))))) s2
     in Returns () s3))"

definition buildEdges :: "ref \<Rightarrow> store \<Rightarrow> unit result" where
  "buildEdges this s =
     (let edgeCollections = (case edgeCollections (options (s this)) of Inr xs \<Rightarrow> xs | Inl x \<Rightarrow> [x]) in
      bind (handleCommaSeparated this edgeCollections ''edge'' s) (\<lambda>statement s1.
      Returns () (s1(this := (s1 this)\<lparr>edges := statement\<rparr>))))"

text \<open>\<^verbatim>\<open>/^[A-Za-z][A-Za-z0-9\-_]*\/[A-Za-z0-9\-_]+$/.test(id)\<close>: the slash is outside the
  class, so the greedy star stops at the first character outside the class.\<close>

definition document_id :: "string \<Rightarrow> bool" where
  "document_id x =
     (safe_phrase (takeWhile is_ident_char x) \<and>
      (case dropWhile is_ident_char x of
         [] \<Rightarrow> False
       | c # key \<Rightarrow> c = CHR ''/'' \<and> key \<noteq> [] \<and> list_all is_ident_char key))"

definition getDocSelector :: "ref \<Rightarrow> store \<Rightarrow> string" where
  "getDocSelector this s = doc (s this)"

text \<open>Truthiness of \<^verbatim>\<open>options.startingVertexId\<close>: absent and the empty string are falsy.\<close>

definition truthy_string :: "string option \<Rightarrow> string option" where
  "truthy_string x = (case x of None \<Rightarrow> None | Some v \<Rightarrow> if v \<noteq> [] then Some v else None)"

definition buildStartingVertexId :: "ref \<Rightarrow> store \<Rightarrow> unit result" where
  "buildStartingVertexId this s =
     (case truthy_string (startingVertexId (options (s this))) of
        Some v \<Rightarrow>
          if \<not> document_id v then Throws InvalidVertexReference
          else
            bind (getNextGlobalTick this s) (\<lambda>t s1.
            let id = ''starting_vertex_'' @ string_of_nat t;
                s2 = s1(this := (s1 this)\<lparr>startingVertexId' := ''@'' @ id\<rparr>);
                s3 = set_bindVar this id (Prim (PString v)) s2
            in Returns () s3)
      | None \<Rightarrow>
          bind (if rootDoc (s this) = [] then
                  (case getTopmostParentQuery this s of
                     None \<Rightarrow> Diverges
                   | Some parent \<Rightarrow>
                       if parent = this then Throws MissingStartingVertex
                       else Returns () (s(this := (s this)\<lparr>rootDoc := getDocSelector parent s\<rparr>)))
                else Returns () s) (\<lambda>_ s1.
          Returns () (s1(this := (s1 this)\<lparr>startingVertexId' := rootDoc (s1 this) @ ''._id''\<rparr>))))"

text \<open>The values of the enum \<^verbatim>\<open>Direction\<close>; an absent direction prints as \<^verbatim>\<open>undefined\<close>
  (the constructor of the edge builder fills it in).\<close>

definition string_of_direction :: "Direction option \<Rightarrow> string" where
  "string_of_direction d =
     (case d of None \<Rightarrow> ''undefined'' | Some Outbound \<Rightarrow> ''OUTBOUND'' | Some Inbound \<Rightarrow> ''INBOUND''
              | Some Any \<Rightarrow> ''ANY'')"

definition buildSelector_Edge :: "ref \<Rightarrow> store \<Rightarrow> unit result" where
  "buildSelector_Edge this s =
     bind (buildEdges this s) (\<lambda>_ s0.
     bind (buildStartingVertexId this s0) (\<lambda>_ s1.
     bind (getNextGlobalTick this s1) (\<lambda>t s2.
     let depthKeyName = ''depth_'' @ string_of_nat t;
         s3 = s2(this := (s2 this)\<lparr>selector :=
                ''FOR '' @ doc (s2 this) @ '' IN 1..@'' @ depthKeyName @ '' ''
                @ string_of_direction (direction (options (s2 this))) @ '' ''
                @ startingVertexId' (s2 this) @ '' '' @ edges (s2 this) @ '' ''\<rparr>);
         s4 = set_bindVar this depthKeyName
                (case depth (options (s3 this)) of None \<Rightarrow> Prim PUndefined | Some d \<Rightarrow> Prim (PNumber d)) s3
     in Returns () s4)))"

text \<open>\<^verbatim>\<open>buildSelector\<close> is overridden by the document and the edge builder; the base class
  throws, and the view builder inherits that.\<close>

definition buildSelector :: "ref \<Rightarrow> store \<Rightarrow> unit result" where
  "buildSelector this s =
     (case cls (s this) of
        ArangoBaseQueryBuilder \<Rightarrow> Throws NotImplemented
      | ArangoDocumentQueryBuilder \<Rightarrow> buildSelector_Document this s
      | ArangoEdgeQueryBuilder \<Rightarrow> buildSelector_Edge this s
      | ArangoViewQueryBuilder \<Rightarrow> Throws NotImplemented)"

section \<open>\<^verbatim>\<open>prepareQuery\<close>\<close>

definition buildEverything :: "nat \<Rightarrow> (ref \<Rightarrow> store \<Rightarrow> AqlQuery result) \<Rightarrow> ref \<Rightarrow> store \<Rightarrow> unit result" where
  "buildEverything fuel prep this s =
     bind (buildSelector this s) (\<lambda>_ s1.
     bind (buildFilter this s1) (\<lambda>_ s2.
     bind (buildSort this s2) (\<lambda>_ s3.
     bind (buildLimit this s3) (\<lambda>_ s4.
     bind (buildWithClause fuel this s4) (\<lambda>_ s5.
     bind (buildReturnClause this s5) (\<lambda>_ s6.
     buildAdditionalQueries prep this s6))))))"

text \<open>The two shapes of the query text, from the fields of the builder after the build.\<close>

definition query_text :: "builder \<Rightarrow> string" where
  "query_text b =
     (if withCount (options b) then
        withClause b @ ''LET total = FIRST('' @ selector b @ filter' b
          @ ''COLLECT WITH COUNT INTO length RETURN length) ''
        @ ''LET docs = ('' @ selector b @ filter' b @ sort' b @ limit' b @ inlineQueries b
          @ ''RETURN '' @ returnClause b @ '') ''
        @ ''RETURN { docs, total }''
      else
        withClause b @ selector b @ filter' b @ sort' b @ limit' b @ inlineQueries b
          @ ''RETURN '' @ returnClause b)"

text \<open>
  \<^verbatim>\<open>prepareQuery\<close> calls itself on the children, through \<^verbatim>\<open>buildAdditionalQueries\<close>; the
  fuel bounds the depth of these calls and of the calls of
  \<^verbatim>\<open>gatherRelatedCollectionsRecursively\<close>.
\<close>

fun prepareQuery :: "nat \<Rightarrow> ref \<Rightarrow> store \<Rightarrow> AqlQuery result" where
  "prepareQuery 0 this s = Diverges"
| "prepareQuery (Suc fuel) this s =
     bind (buildEverything (Suc fuel) (prepareQuery fuel) this s) (\<lambda>_ s1.
     Returns (query_text (s1 this), bindVars (s1 this)) s1)"

section \<open>The public setters\<close>

definition setDocSelector :: "ref \<Rightarrow> string \<Rightarrow> store \<Rightarrow> unit result" where
  "setDocSelector this d s =
     bind (checkSafe d s) (\<lambda>_ s1. Returns () (s1(this := (s1 this)\<lparr>doc := d\<rparr>)))"

definition setRootDocSelector :: "ref \<Rightarrow> string \<Rightarrow> store \<Rightarrow> unit result" where
  "setRootDocSelector this d s =
     bind (checkSafe d s) (\<lambda>_ s1. Returns () (s1(this := (s1 this)\<lparr>rootDoc := d\<rparr>)))"

text \<open>\<^verbatim>\<open>Map.prototype.set\<close>: a key that is present keeps its place, a new key goes last.\<close>

fun map_set :: "string \<Rightarrow> ref \<Rightarrow> (string \<times> ref) list \<Rightarrow> (string \<times> ref) list" where
  "map_set k v [] = [(k, v)]"
| "map_set k v (e # es) = (if fst e = k then (k, v) # es else e # map_set k v es)"

definition addAdditionalQuery :: "ref \<Rightarrow> string \<Rightarrow> ref \<Rightarrow> store \<Rightarrow> unit result" where
  "addAdditionalQuery this varName q s =
     bind (checkSafe varName s) (\<lambda>_ s0.
     if varName = doc (s0 this) then Throws DuplicateFieldName
     else
       let s1 = setParentQuery q this s0;
           s2 = s1(this := (s1 this)\<lparr>additionalQueries := map_set varName q (additionalQueries (s1 this))\<rparr>)
       in Returns () s2)"

section \<open>The constructors\<close>

definition new_builder :: "builder_class \<Rightarrow> string \<Rightarrow> options \<Rightarrow> builder" where
  "new_builder c d opts =
     \<lparr>cls = c, options = opts, bindVars = Map.empty, additionalQueries = [], withClause = [],
      selector = [], filter' = [], sort' = [], limit' = [], doc = d, returnClause = d,
      inlineQueries = [], priv_isRootQuery = True, priv_tick = 0, priv_parent = None,
      edges = [], rootDoc = [], startingVertexId' = []\<rparr>"

definition new_ArangoBaseQueryBuilder :: "options \<Rightarrow> builder" where
  "new_ArangoBaseQueryBuilder opts = new_builder ArangoBaseQueryBuilder ''doc'' opts"

definition new_ArangoDocumentQueryBuilder :: "options \<Rightarrow> builder" where
  "new_ArangoDocumentQueryBuilder opts = new_builder ArangoDocumentQueryBuilder ''doc'' opts"

definition new_ArangoViewQueryBuilder :: "options \<Rightarrow> builder" where
  "new_ArangoViewQueryBuilder opts = new_builder ArangoViewQueryBuilder ''res'' opts"

text \<open>The constructor of the edge builder fills in \<^verbatim>\<open>depth ??= 1\<close> and
  \<^verbatim>\<open>direction ??= Direction.Any\<close>.\<close>

definition new_ArangoEdgeQueryBuilder :: "options \<Rightarrow> builder" where
  "new_ArangoEdgeQueryBuilder opts =
     new_builder ArangoEdgeQueryBuilder ''vertex''
       (opts\<lparr>depth := (case depth opts of None \<Rightarrow> Some 1 | Some d \<Rightarrow> Some d),
             direction := (case direction opts of None \<Rightarrow> Some Any | Some d \<Rightarrow> Some d)\<rparr>)"

section \<open>Notions used to state the properties\<close>

text \<open>
  The parent chain of a builder ends: following \<^verbatim>\<open>_parent\<close> from \<open>n\<close> reaches, after finitely
  many steps, a builder without a parent. A chain that runs into a cycle never does.
\<close>

inductive chain_ends :: "store \<Rightarrow> ref \<Rightarrow> bool" for s where
  no_parent: "priv_parent (s n) = None \<Longrightarrow> chain_ends s n"
| has_parent: "priv_parent (s n) = Some p \<Longrightarrow> chain_ends s p \<Longrightarrow> chain_ends s n"

text \<open>
  The two private fields \<^verbatim>\<open>_isRootQuery\<close> and \<^verbatim>\<open>_parent\<close> are only written together: the
  constructor sets \<^verbatim>\<open>true\<close> and \<^verbatim>\<open>undefined\<close>, \<^verbatim>\<open>setParentQuery\<close> sets \<^verbatim>\<open>false\<close> and a parent.
\<close>

definition flags_consistent :: "store \<Rightarrow> bool" where
  "flags_consistent s \<longleftrightarrow> (\<forall>n. priv_isRootQuery (s n) \<longleftrightarrow> priv_parent (s n) = None)"

text \<open>
  Two stores with the same parent references and root flags.
\<close>

definition same_links :: "store \<Rightarrow> store \<Rightarrow> bool" where
  "same_links s s' \<longleftrightarrow>
     (\<forall>n. priv_parent (s' n) = priv_parent (s n) \<and> priv_isRootQuery (s' n) = priv_isRootQuery (s n))"

text \<open>
  Example builders, after the test suite of the repository.
\<close>

definition no_options :: options where
  "no_options = \<lparr>sortBy = None, limitBy = None, filterBy = None, withCount = False,
     documentCollection = [], edgeCollections = Inr [], relatedCollections = None,
     startingVertexId = None, depth = None, direction = None\<rparr>"

definition document_options :: "string \<Rightarrow> options" where
  "document_options c = no_options\<lparr>documentCollection := c\<rparr>"

definition edge_options :: "string \<Rightarrow> string \<Rightarrow> options" where
  "edge_options e r = no_options\<lparr>edgeCollections := Inl e, relatedCollections := Some (Inl r)\<rparr>"

definition fresh_store :: store where
  "fresh_store = (\<lambda>_. new_ArangoBaseQueryBuilder no_options)"

definition two_builders :: store where
  "two_builders = fresh_store
     (0 := new_ArangoDocumentQueryBuilder (document_options ''manifest''),
      1 := new_ArangoEdgeQueryBuilder (edge_options ''tospaa'' ''afyon''))"

text \<open>
  The language of the regular expression \<^verbatim>\<open>[A-Za-z][A-Za-z0-9\-_]*\<close>, stated apart from
  the function \<open>safe_phrase\<close> that the guard runs.
\<close>

inductive_set star_of :: "(char \<Rightarrow> bool) \<Rightarrow> string set" for P where
  empty: "[] \<in> star_of P"
| more: "P c \<Longrightarrow> w \<in> star_of P \<Longrightarrow> c # w \<in> star_of P"

definition identifier_language :: "string set" where
  "identifier_language = {c # w | c w. is_alpha c \<and> w \<in> star_of is_ident_char}"

definition one_document :: store where
  "one_document = fresh_store(0 := new_ArangoDocumentQueryBuilder (document_options ''manifest''))"

definition nested_then_sibling :: Filter where
  "nested_then_sibling =
     [(''a'', Object [(''b'', Prim (PNumber 1)), (''c'', Prim (PNumber 2))]),
      (''d'', Prim (PNumber 3))]"

text \<open>
  What \<^verbatim>\<open>prepareQuery\<close> never writes: the class, the options, the children, the row alias and
  the parent link of every builder. The bind variables only gain keys and the counters
  only grow.
\<close>

definition shape :: "builder \<Rightarrow> builder_class \<times> options \<times> (string \<times> ref) list \<times> string \<times> ref option \<times> bool" where
  "shape b = (cls b, options b, additionalQueries b, doc b, priv_parent b, priv_isRootQuery b)"

definition frame :: "store \<Rightarrow> store \<Rightarrow> bool" where
  "frame s s' \<longleftrightarrow>
     (\<forall>n. shape (s' n) = shape (s n) \<and> dom (bindVars (s n)) \<subseteq> dom (bindVars (s' n))
          \<and> priv_tick (s n) \<le> priv_tick (s' n))"

text \<open>
  The builders on the parent chain of \<open>n\<close>, \<open>n\<close> included.
\<close>

inductive_set ancestors :: "store \<Rightarrow> ref \<Rightarrow> ref set" for s n where
  self: "n \<in> ancestors s n"
| up: "p \<in> ancestors s n \<Longrightarrow> priv_parent (s p) = Some q \<Longrightarrow> q \<in> ancestors s n"

definition cyclic_pair :: store where
  "cyclic_pair = fresh_store
     (0 := (new_ArangoDocumentQueryBuilder (document_options ''manifest''))
             \<lparr>additionalQueries := [(''a'', 1)], priv_isRootQuery := False, priv_parent := Some 1\<rparr>,
      1 := (new_ArangoDocumentQueryBuilder (document_options ''other''))
             \<lparr>additionalQueries := [(''b'', 0)], priv_isRootQuery := False, priv_parent := Some 0\<rparr>)"

definition parent_and_child :: store where
  "parent_and_child = fresh_store
     (0 := (new_ArangoDocumentQueryBuilder (document_options ''manifest''))
             \<lparr>additionalQueries := [(''related'', 1)]\<rparr>,
      1 := (new_ArangoEdgeQueryBuilder (edge_options ''tospaa'' ''afyon''))
             \<lparr>priv_isRootQuery := False, priv_parent := Some 0\<rparr>)"

text \<open>
  The names \<^verbatim>\<open>k_T+1\<close>, ..., \<^verbatim>\<open>k_T+n\<close> that \<open>n\<close> ticks after the counter value \<open>T\<close> give to the
  base name \<open>k\<close>.
\<close>

definition generated_names :: "string \<Rightarrow> nat \<Rightarrow> nat \<Rightarrow> string list" where
  "generated_names k T n = map (\<lambda>t. k @ ''_'' @ string_of_nat t) [Suc T ..< Suc (T + n)]"

text \<open>
  Two stores that differ at most in bind variables and counters.
\<close>

definition only_binds_and_ticks :: "store \<Rightarrow> store \<Rightarrow> bool" where
  "only_binds_and_ticks s s' \<longleftrightarrow>
     (\<forall>n. (s' n)\<lparr>bindVars := bindVars (s n), priv_tick := priv_tick (s n)\<rparr> = s n)"

text \<open>
  The related collections that one builder contributes, as
  \<^verbatim>\<open>gatherRelatedCollectionsRecursively\<close> reads them before it visits the children.
\<close>

definition own_related :: "options \<Rightarrow> string list" where
  "own_related opts =
     (case truthy_collections (relatedCollections opts) of Some rc \<Rightarrow> concatArrays [] rc | None \<Rightarrow> [])"

definition two_traversals :: store where
  "two_traversals = fresh_store
     (0 := (new_ArangoDocumentQueryBuilder (document_options ''manifest''))
             \<lparr>additionalQueries := [(''first'', 1), (''second'', 2)]\<rparr>,
      1 := (new_ArangoEdgeQueryBuilder (edge_options ''tospaa'' ''afyon''))
             \<lparr>priv_isRootQuery := False, priv_parent := Some 0\<rparr>,
      2 := (new_ArangoEdgeQueryBuilder ((edge_options ''other'' ''afyon'')\<lparr>withCount := True\<rparr>))
             \<lparr>priv_isRootQuery := False, priv_parent := Some 0\<rparr>)"

definition counted_document :: store where
  "counted_document = fresh_store
     (0 := new_ArangoDocumentQueryBuilder ((document_options ''manifest'')\<lparr>withCount := True\<rparr>))"

definition child_with_empty_start :: store where
  "child_with_empty_start = parent_and_child
     (1 := (new_ArangoEdgeQueryBuilder ((edge_options ''tospaa'' ''afyon'')\<lparr>startingVertexId := Some []\<rparr>))
             \<lparr>priv_isRootQuery := False, priv_parent := Some 0\<rparr>)"

definition lone_traversal :: "string option \<Rightarrow> store" where
  "lone_traversal v = fresh_store
     (0 := new_ArangoEdgeQueryBuilder ((edge_options ''edge'' ''related'')\<lparr>startingVertexId := v\<rparr>))"

text \<open>
  The text of one inline binding, and the run of the loop over the children told as a
  relation: each child is prepared in the store that the previous child and its merge left,
  and after each child the bind variables of the parent are those it had, extended by the
  keys of the child that it did not have.
\<close>

definition inline_binding :: "string \<Rightarrow> options \<Rightarrow> string \<Rightarrow> string" where
  "inline_binding f copts q =
     ''LET '' @ f @ '' = '' @ (if withCount copts \<or> limit_is_one copts then ''FIRST'' else [])
     @ ''('' @ q @ '') ''"

inductive children_prepared ::
  "(ref \<Rightarrow> store \<Rightarrow> AqlQuery result) \<Rightarrow> ref \<Rightarrow> (string \<times> ref) list \<Rightarrow> store \<Rightarrow> AqlQuery list \<Rightarrow> store \<Rightarrow> bool"
  for prep this where
  no_child: "children_prepared prep this [] s [] s"
| next_child:
    "prep c s = Returns (q, bv) s1 \<Longrightarrow>
     s2 = s1(this := (s1 this)\<lparr>bindVars :=
            (\<lambda>k. case bindVars (s1 this) k of Some v \<Rightarrow> Some v | None \<Rightarrow> bv k)\<rparr>) \<Longrightarrow>
     children_prepared prep this es s2 rs s' \<Longrightarrow>
     children_prepared prep this ((f, c) # es) s ((q, bv) # rs) s'"

text \<open>
  The number that a generated name ends with: the name \<^verbatim>\<open>prefix_t\<close> is made from the value
  \<open>t\<close> that \<^verbatim>\<open>getNextGlobalTick\<close> returned, and \<open>name_tick\<close> reads \<open>t\<close> back from its last
  digits.
\<close>

definition digit_value :: "char \<Rightarrow> nat" where
  "digit_value c = of_char c - 48"

definition nat_of_digits :: "string \<Rightarrow> nat" where
  "nat_of_digits ds = fold (\<lambda>c n. 10 * n + digit_value c) ds 0"

definition name_tick :: "string \<Rightarrow> nat" where
  "name_tick k = nat_of_digits (rev (takeWhile is_digit (rev k)))"

text \<open>
  The bind parameters that a query text refers to. AQL writes a value parameter as \<^verbatim>\<open>@name\<close>
  and a collection parameter as \<^verbatim>\<open>@@name\<close>, where the name is made of letters, digits and
  underscores; the key of the collection parameter in the bind variables is \<^verbatim>\<open>@name\<close>.
  \<open>placeholders\<close> scans a text from left to right and lists the keys it refers to.
\<close>

definition is_word :: "char \<Rightarrow> bool" where
  "is_word c \<longleftrightarrow> is_alpha c \<or> is_digit c \<or> c = CHR ''_''"

function placeholders :: "string \<Rightarrow> string list" where
  "placeholders [] = []"
| "placeholders (c # cs) =
     (if c \<noteq> CHR ''@'' then placeholders cs
      else (case cs of
              d # ds \<Rightarrow>
                if d = CHR ''@'' then (CHR ''@'' # takeWhile is_word ds) # placeholders (dropWhile is_word ds)
                else takeWhile is_word cs # placeholders (dropWhile is_word cs)
            | [] \<Rightarrow> [[]]))"
  by pat_completeness auto
termination
  by (relation "measure length") (auto simp: length_dropWhile_le less_Suc_eq_le intro: le_trans[OF length_dropWhile_le])

text \<open>
  A text without \<^verbatim>\<open>@\<close> refers to no parameter. A text is \<open>delimited\<close> when it cannot continue
  a name that ends just before it, and \<open>closed\<close> when no name can run on beyond its end:
  these are the conditions under which the placeholders of a concatenation are those of
  its parts.
\<close>

definition at_free :: "string \<Rightarrow> bool" where
  "at_free x \<longleftrightarrow> CHR ''@'' \<notin> set x"

definition delimited :: "string \<Rightarrow> bool" where
  "delimited y \<longleftrightarrow> y = [] \<or> (\<not> is_word (hd y) \<and> hd y \<noteq> CHR ''@'')"

definition closed :: "string \<Rightarrow> bool" where
  "closed x \<longleftrightarrow> x = [] \<or> (\<not> is_word (last x) \<and> last x \<noteq> CHR ''@'')"

declare placeholders.simps(2) [simp del]

text \<open>
  Every placeholder of the text \<open>x\<close> is a key in \<open>D\<close>.
\<close>

definition bound :: "string set \<Rightarrow> string \<Rightarrow> bool" where
  "bound D x \<longleftrightarrow> set (placeholders x) \<subseteq> D"

definition word :: "string \<Rightarrow> bool" where
  "word n \<longleftrightarrow> n \<noteq> [] \<and> list_all is_word n"

text \<open>
  The texts that \<^verbatim>\<open>extractFilters\<close> copies from a filter into the query without a guard:
  the \<^verbatim>\<open>@operator\<close> and the \<^verbatim>\<open>@docNameToFilter\<close> of a leaf. \<open>inlines_at_free\<close> holds when none
  of them contains \<^verbatim>\<open>@\<close>, as is the case for the six operators of the type \<^verbatim>\<open>FilterObj\<close>
  and for every alias that passes the identifier pattern.
\<close>

definition inlined_text :: "jsval \<Rightarrow> string \<Rightarrow> string" where
  "inlined_text v k =
     (case markers v k of None \<Rightarrow> [] | Some x \<Rightarrow> if nullish x then [] else toString x)"

function inlines_at_free :: "Filter \<Rightarrow> bool" where
  "inlines_at_free [] = True"
| "inlines_at_free ((key, Prim p) # rest) = inlines_at_free rest"
| "inlines_at_free ((key, PrimArray ps) # rest) = inlines_at_free rest"
| "inlines_at_free ((key, Object es) # rest) =
     (if isFilterPrimitiveType (Object es) \<or> isFilterProperFilterObject (Object es) then
        at_free (inlined_text (Object es) ''@docNameToFilter'')
        \<and> at_free (inlined_text (Object es) ''@operator'') \<and> inlines_at_free rest
      else inlines_at_free es \<and> inlines_at_free rest)"
  by pat_completeness auto
termination
  by (relation "measure (size_list (size_prod (\<lambda>_. 0) size))") auto

text \<open>
  The caller-chosen texts of one builder. Its row alias and the field names of its children
  pass the identifier guard before they are stored, so they are free of \<^verbatim>\<open>@\<close>: this is
  \<open>aliases_at_free\<close>. What its filter inlines is not guarded: \<open>filter_inlines_at_free\<close> is
  a condition on the options that the caller passed. \<open>names_ok\<close> is both.
\<close>

definition aliases_at_free :: "builder \<Rightarrow> bool" where
  "aliases_at_free b \<longleftrightarrow> at_free (doc b) \<and> (\<forall>e \<in> set (additionalQueries b). at_free (fst e))"

definition filter_inlines_at_free :: "builder \<Rightarrow> bool" where
  "filter_inlines_at_free b \<longleftrightarrow>
     (case filterBy (options b) of None \<Rightarrow> True | Some f \<Rightarrow> inlines_at_free f)"

definition names_ok :: "builder \<Rightarrow> bool" where
  "names_ok b \<longleftrightarrow> aliases_at_free b \<and> filter_inlines_at_free b"

text \<open>
  \<open>text_ok\<close> says of the clause fields of a builder that each refers to keys of its own
  bind variables only and can be followed by any text. A builder that was
  \<open>never_prepared\<close> has the empty clause fields and the empty bind variables of the
  constructor, and a return alias and a root-document selector without \<^verbatim>\<open>@\<close>, as the
  constructors and the guarded \<^verbatim>\<open>setRootDocSelector\<close> leave them.
\<close>

definition text_ok :: "builder \<Rightarrow> bool" where
  "text_ok b \<longleftrightarrow>
     (\<forall>x \<in> {withClause b, selector b, filter' b, sort' b, limit' b, inlineQueries b}.
         bound (dom (bindVars b)) x \<and> closed x)
     \<and> bound (dom (bindVars b)) (edges b) \<and> bound (dom (bindVars b)) (startingVertexId' b)
     \<and> at_free (returnClause b) \<and> at_free (rootDoc b)"

definition never_prepared :: "builder \<Rightarrow> bool" where
  "never_prepared b \<longleftrightarrow>
     bindVars b = Map.empty \<and> withClause b = [] \<and> selector b = [] \<and> filter' b = [] \<and> sort' b = []
     \<and> limit' b = [] \<and> inlineQueries b = [] \<and> edges b = [] \<and> startingVertexId' b = []
     \<and> at_free (returnClause b) \<and> at_free (rootDoc b)"

text \<open>
  The builders of the tree below \<open>r\<close>, and the valid trees: the root has no parent, and every
  builder that is reached through \<^verbatim>\<open>additionalQueries\<close> resolves \<open>r\<close> as its topmost parent,
  has not been prepared yet and has a guarded row alias and guarded field names. Nothing
  is asked of the options. \<open>tree_inlines_at_free\<close> is the further condition that no filter
  of the tree inlines a text with \<^verbatim>\<open>@\<close>.
\<close>

inductive_set tree_nodes :: "store \<Rightarrow> ref \<Rightarrow> ref set" for s r where
  root: "r \<in> tree_nodes s r"
| child: "n \<in> tree_nodes s r \<Longrightarrow> e \<in> set (additionalQueries (s n)) \<Longrightarrow> snd e \<in> tree_nodes s r"

definition valid_tree :: "store \<Rightarrow> ref \<Rightarrow> bool" where
  "valid_tree s r \<longleftrightarrow>
     priv_parent (s r) = None
     \<and> (\<forall>n \<in> tree_nodes s r.
           getTopmostParentQuery n s = Some r \<and> never_prepared (s n) \<and> aliases_at_free (s n))"

definition tree_inlines_at_free :: "store \<Rightarrow> ref \<Rightarrow> bool" where
  "tree_inlines_at_free s r \<longleftrightarrow> (\<forall>n \<in> tree_nodes s r. filter_inlines_at_free (s n))"

text \<open>
  The effect of the build steps of one builder on the store: \<open>built r this s s'\<close> holds when
  the bind variables of \<open>this\<close> gained keys whose ticks are exactly the values the counter
  of the root \<open>r\<close> ran through, in order, when no other builder changed except for that
  counter, and when the clause fields of \<open>this\<close> still refer to its own keys only.
\<close>

definition tick_range :: "nat \<Rightarrow> nat \<Rightarrow> nat list" where
  "tick_range T n = [Suc T ..< Suc (T + n)]"

definition built :: "ref \<Rightarrow> ref \<Rightarrow> store \<Rightarrow> store \<Rightarrow> bool" where
  "built r this s s' \<longleftrightarrow>
     frame s s'
     \<and> (\<exists>ks. dom (bindVars (s' this)) = dom (bindVars (s this)) \<union> set ks
            \<and> priv_tick (s' r) = priv_tick (s r) + length ks
            \<and> map name_tick ks = tick_range (priv_tick (s r)) (length ks))
     \<and> (\<forall>n. n \<noteq> this \<longrightarrow> (s' n)\<lparr>priv_tick := priv_tick (s n)\<rparr> = s n)
     \<and> (names_ok (s this) \<longrightarrow> at_free (doc (s r)) \<longrightarrow> text_ok (s this) \<longrightarrow> text_ok (s' this))"

text \<open>
  The keys of all builders of a set \<open>N\<close>. \<open>allocates r N this s s'\<close>: the keys that are new in
  \<open>s'\<close> are in one-to-one correspondence with the counter values passed between \<open>s\<close> and
  \<open>s'\<close>, and all of them are keys of \<open>this\<close>. \<open>alloc_invariant\<close> is what every step of
  \<^verbatim>\<open>prepareQuery\<close> keeps, whatever the options are: all builders of \<open>N\<close> resolve the root
  \<open>r\<close>, their children are in \<open>N\<close>, and no key carries a tick beyond the counter.
  \<open>tree_invariant\<close> adds what holds when the inlined texts are free of \<^verbatim>\<open>@\<close>: the clause
  fields of every builder refer to its own keys.
\<close>

definition keys_of :: "ref set \<Rightarrow> store \<Rightarrow> string set" where
  "keys_of N s = (\<Union>n\<in>N. dom (bindVars (s n)))"

definition allocates :: "ref \<Rightarrow> ref set \<Rightarrow> ref \<Rightarrow> store \<Rightarrow> store \<Rightarrow> bool" where
  "allocates r N this s s' \<longleftrightarrow>
     frame s s'
     \<and> bij_betw name_tick (keys_of N s' - keys_of N s) {priv_tick (s r) <.. priv_tick (s' r)}
     \<and> keys_of N s' - keys_of N s \<subseteq> dom (bindVars (s' this))"

definition alloc_invariant :: "ref \<Rightarrow> ref set \<Rightarrow> store \<Rightarrow> bool" where
  "alloc_invariant r N s \<longleftrightarrow>
     r \<in> N
     \<and> (\<forall>n\<in>N. getTopmostParentQuery n s = Some r
            \<and> (\<forall>e \<in> set (additionalQueries (s n)). snd e \<in> N))
     \<and> (\<forall>k \<in> keys_of N s. name_tick k \<le> priv_tick (s r))"

definition tree_invariant :: "ref \<Rightarrow> ref set \<Rightarrow> store \<Rightarrow> bool" where
  "tree_invariant r N s \<longleftrightarrow>
     r \<in> N
     \<and> (\<forall>n\<in>N. getTopmostParentQuery n s = Some r \<and> names_ok (s n) \<and> text_ok (s n)
            \<and> (\<forall>e \<in> set (additionalQueries (s n)). snd e \<in> N))
     \<and> (\<forall>k \<in> keys_of N s. name_tick k \<le> priv_tick (s r))"

text \<open>
  The keys of a list of flattened filter entries.
\<close>

definition filter_keys :: "AqlQuery list \<Rightarrow> string set" where
  "filter_keys fs = (\<Union>q\<in>set fs. dom (snd q))"

text \<open>
  A document builder with a filter that has an explicit operator, a sort, a limit, and one
  traversal as a child; and a document builder whose filter overrides the alias of a leaf
  with a text that contains \<^verbatim>\<open>@\<close>.
\<close>

definition filtered_with_related :: store where
  "filtered_with_related = fresh_store
     (0 := (new_ArangoDocumentQueryBuilder ((document_options ''manifest'')
               \<lparr>sortBy := Some \<lparr>field = ''createdDateTime'', order = DESC\<rparr>,
                limitBy := Some \<lparr>offset = 0, limit = 1\<rparr>,
                filterBy := Some [(''state'', Object [(''@value'', Prim (PString ''InTest'')),
                                                      (''@operator'', Prim (PString ''!=''))])]\<rparr>))
             \<lparr>additionalQueries := [(''related'', 1)]\<rparr>,
      1 := (new_ArangoEdgeQueryBuilder (edge_options ''tospaa'' ''afyon''))
             \<lparr>priv_isRootQuery := False, priv_parent := Some 0\<rparr>)"

definition alias_override_with_at :: store where
  "alias_override_with_at = fresh_store
     (0 := new_ArangoDocumentQueryBuilder ((document_options ''manifest'')
               \<lparr>filterBy := Some [(''state'', Object [(''@value'', Prim (PString ''InTest'')),
                                                      (''@docNameToFilter'', Prim (PString ''x.@oops''))])]\<rparr>))"

section \<open>The parent walk\<close>

lemma bind_Returns_iff:
  "bind m f = Returns b s' \<longleftrightarrow> (\<exists>a s1. m = Returns a s1 \<and> f a s1 = Returns b s')"
  by (cases m) auto

lemma topmost_loop_ends:
  assumes "chain_ends s p" "flags_consistent s"
  shows "\<exists>r. topmost_loop s p = Some r \<and> priv_parent (s r) = None"
  using assms
proof (induction rule: chain_ends.induct)
  case (no_parent n)
  then show ?case by (subst topmost_loop.simps) (simp add: getParentQuery_def)
next
  case (has_parent n p)
  then obtain r where r: "topmost_loop s p = Some r" "priv_parent (s r) = None" by auto
  show ?case
  proof (cases "isRootQuery p s")
    case True
    with has_parent show ?thesis
      by (subst topmost_loop.simps) (simp add: getParentQuery_def isRootQuery_def flags_consistent_def)
  next
    case False
    with has_parent r show ?thesis
      by (subst topmost_loop.simps) (simp add: getParentQuery_def)
  qed
qed

lemma topmost_loop_Some_chain:
  assumes "topmost_loop s p = Some r" "flags_consistent s"
  shows "chain_ends s p"
  using assms
proof (induction rule: topmost_loop.raw_induct[rotated 1, consumes 1])
  case (1 loop s parent r)
  show ?case
  proof (cases "priv_parent (s parent)")
    case None
    then show ?thesis by (rule chain_ends.no_parent)
  next
    case (Some lp)
    show ?thesis
    proof (cases "priv_isRootQuery (s lp)")
      case True
      with 1(3) have "priv_parent (s lp) = None" by (simp add: flags_consistent_def)
      then have "chain_ends s lp" by (rule chain_ends.no_parent)
      with Some show ?thesis by (rule chain_ends.has_parent)
    next
      case False
      with 1(2) Some have "loop s lp = Some r"
        by (simp add: getParentQuery_def isRootQuery_def)
      then have "chain_ends s lp" using 1(1) 1(3) by blast
      with Some show ?thesis by (rule chain_ends.has_parent)
    qed
  qed
qed

lemma getTopmostParentQuery_ends:
  assumes "chain_ends s n" "flags_consistent s"
  shows "\<exists>r. getTopmostParentQuery n s = Some r \<and> priv_parent (s r) = None"
proof (cases "priv_parent (s n)")
  case None
  then show ?thesis by (simp add: getTopmostParentQuery_def)
next
  case (Some p)
  with assms(1) have p: "chain_ends s p" by (auto elim: chain_ends.cases)
  show ?thesis
  proof (cases "priv_isRootQuery (s p)")
    case True
    with Some assms(2) show ?thesis
      by (simp add: getTopmostParentQuery_def isRootQuery_def flags_consistent_def)
  next
    case False
    with Some topmost_loop_ends[OF p assms(2)] show ?thesis
      by (simp add: getTopmostParentQuery_def isRootQuery_def)
  qed
qed

lemma getTopmostParentQuery_Some_chain:
  assumes "getTopmostParentQuery n s = Some r" "flags_consistent s"
  shows "chain_ends s n"
proof (cases "priv_parent (s n)")
  case None
  then show ?thesis by (rule chain_ends.no_parent)
next
  case (Some p)
  show ?thesis
  proof (cases "priv_isRootQuery (s p)")
    case True
    with assms(2) have "priv_parent (s p) = None" by (simp add: flags_consistent_def)
    then have "chain_ends s p" by (rule chain_ends.no_parent)
    with Some show ?thesis by (rule chain_ends.has_parent)
  next
    case False
    with Some assms(1) have "topmost_loop s p = Some r"
      by (simp add: getTopmostParentQuery_def isRootQuery_def)
    then have "chain_ends s p" using assms(2) by (rule topmost_loop_Some_chain)
    with Some show ?thesis by (rule chain_ends.has_parent)
  qed
qed

lemma same_links_refl [simp]: "same_links s s"
  by (simp add: same_links_def)

lemma same_links_sym: "same_links s s' \<Longrightarrow> same_links s' s"
  by (simp add: same_links_def)

lemma same_links_trans: "same_links s s' \<Longrightarrow> same_links s' s'' \<Longrightarrow> same_links s s''"
  by (simp add: same_links_def)

lemma topmost_loop_links_Some:
  assumes "topmost_loop s p = Some r"
  shows "same_links s s' \<Longrightarrow> topmost_loop s' p = Some r"
  using assms
proof (induction arbitrary: s' rule: topmost_loop.raw_induct[rotated 1, consumes 1])
  case (1 loop s parent r)
  from 1(3) have par: "priv_parent (s' parent) = priv_parent (s parent)"
    by (simp add: same_links_def)
  show ?case
  proof (cases "priv_parent (s parent)")
    case None
    with 1(2) par show ?thesis
      by (subst topmost_loop.simps) (simp add: getParentQuery_def)
  next
    case (Some lp)
    from 1(3) have flag: "priv_isRootQuery (s' lp) = priv_isRootQuery (s lp)"
      by (simp add: same_links_def)
    show ?thesis
    proof (cases "priv_isRootQuery (s lp)")
      case True
      with 1(2) par Some flag show ?thesis
        by (subst topmost_loop.simps) (simp add: getParentQuery_def isRootQuery_def)
    next
      case False
      with 1(2) Some have "loop s lp = Some r"
        by (simp add: getParentQuery_def isRootQuery_def)
      then have "topmost_loop s' lp = Some r" using 1(3) by (rule 1(1))
      with par Some flag False show ?thesis
        by (subst topmost_loop.simps) (simp add: getParentQuery_def isRootQuery_def)
    qed
  qed
qed

lemma topmost_loop_links:
  assumes "same_links s s'"
  shows "topmost_loop s' p = topmost_loop s p"
proof (cases "topmost_loop s p")
  case (Some r)
  then have "topmost_loop s' p = Some r" using assms by (rule topmost_loop_links_Some)
  with Some show ?thesis by simp
next
  case None
  show ?thesis
  proof (cases "topmost_loop s' p")
    case None
    with \<open>topmost_loop s p = None\<close> show ?thesis by simp
  next
    case (Some r)
    then have "topmost_loop s p = Some r"
      using same_links_sym[OF assms] by (rule topmost_loop_links_Some)
    with None show ?thesis by simp
  qed
qed

lemma getTopmostParentQuery_links:
  assumes "same_links s s'"
  shows "getTopmostParentQuery n s' = getTopmostParentQuery n s"
proof -
  from assms have "priv_parent (s' n) = priv_parent (s n)"
     and "\<And>p. priv_isRootQuery (s' p) = priv_isRootQuery (s p)"
    by (simp_all add: same_links_def)
  then show ?thesis
    by (simp add: getTopmostParentQuery_def isRootQuery_def topmost_loop_links[OF assms]
          split: option.splits)
qed

section \<open>The identifier guard and the setters\<close>

lemma star_of_iff: "w \<in> star_of P \<longleftrightarrow> list_all P w"
proof
  show "w \<in> star_of P \<Longrightarrow> list_all P w" by (induction rule: star_of.induct) auto
  show "list_all P w \<Longrightarrow> w \<in> star_of P" by (induction w) (auto intro: star_of.intros)
qed

lemma safe_phrase_language: "safe_phrase p \<longleftrightarrow> p \<in> identifier_language"
  by (cases p) (auto simp: identifier_language_def star_of_iff)

lemma map_of_map_set: "map_of (map_set k v es) k' = (if k' = k then Some v else map_of es k')"
  by (induction es) auto

lemma map_fst_map_set: "set (map fst (map_set k v es)) = insert k (set (map fst es))"
  by (induction es) auto

text \<open>
  Claim C8. For a field name \<open>f\<close> that passes the identifier guard,
  \<^verbatim>\<open>addAdditionalQuery(f, child)\<close> throws the duplicate-field-name error when \<open>f\<close> is the
  current row alias of the builder; otherwise it returns, the child is registered under
  \<open>f\<close>, and the child is marked as not a root with this builder as its parent.
\<close>

theorem addAdditionalQuery_registers_child:
  assumes "safe_phrase f"
  shows "(f = doc (s this) \<longrightarrow> addAdditionalQuery this f child s = Throws DuplicateFieldName) \<and>
         (f \<noteq> doc (s this) \<longrightarrow>
            (\<exists>s'. addAdditionalQuery this f child s = Returns () s'
                 \<and> map_of (additionalQueries (s' this)) f = Some child
                 \<and> \<not> isRootQuery child s' \<and> getParentQuery child s' = Some this))"
  using assms
  by (auto simp: addAdditionalQuery_def checkSafe_def setParentQuery_def map_of_map_set
        isRootQuery_def getParentQuery_def Let_def)

text \<open>
  The theorem at the builders of the test suite: \<^verbatim>\<open>doc\<close> collides, \<^verbatim>\<open>related\<close> is added.
\<close>

theorem addAdditionalQuery_registers_child_witness:
  "safe_phrase ''doc'' \<and> safe_phrase ''related''
   \<and> addAdditionalQuery 0 ''doc'' 1 two_builders = Throws DuplicateFieldName
   \<and> (\<exists>s'. addAdditionalQuery 0 ''related'' 1 two_builders = Returns () s'
         \<and> map_of (additionalQueries (s' 0)) ''related'' = Some 1
         \<and> \<not> isRootQuery 1 s' \<and> getParentQuery 1 s' = Some 0)"
proof -
  have a: "safe_phrase ''doc''" and b: "safe_phrase ''related''"
    by (simp_all add: is_alpha_def is_ident_char_def is_digit_def)
  have d: "doc (two_builders 0) = ''doc''"
    by (simp add: two_builders_def new_ArangoDocumentQueryBuilder_def new_builder_def)
  from addAdditionalQuery_registers_child[OF a, of two_builders 0 1]
       addAdditionalQuery_registers_child[OF b, of two_builders 0 1] a b d
  show ?thesis by simp
qed

section \<open>Rejected identifiers, aliases and filter paths\<close>

lemma bind_Throws [simp]: "m = Throws e \<Longrightarrow> bind m f = Throws e"
  by simp

text \<open>
  Claim C5. The guard throws the unsafe-identifier error, carrying the string, exactly for
  the strings outside the language of \<^verbatim>\<open>^[A-Za-z][A-Za-z0-9\-_]*$\<close>, and returns without a
  change otherwise. A rejected string stops every guarded entry point before anything is
  written: the two alias setters, \<^verbatim>\<open>addAdditionalQuery\<close>, \<^verbatim>\<open>handleCommaSeparated\<close> (the base
  name of a declaration) and, for the collection name of a document builder,
  \<^verbatim>\<open>prepareQuery\<close> itself, which then produces no query text.
\<close>

theorem checkSafe_rejects_exactly_non_identifiers:
  "(checkSafe p s = Throws (UnsafeIdentifier p) \<longleftrightarrow> p \<notin> identifier_language)
   \<and> (checkSafe p s = Returns () s \<longleftrightarrow> p \<in> identifier_language)
   \<and> (p \<notin> identifier_language \<longrightarrow>
        setDocSelector this p s = Throws (UnsafeIdentifier p)
      \<and> setRootDocSelector this p s = Throws (UnsafeIdentifier p)
      \<and> addAdditionalQuery this p q s = Throws (UnsafeIdentifier p)
      \<and> handleCommaSeparated this vs p s = Throws (UnsafeIdentifier p)
      \<and> (cls (s this) = ArangoDocumentQueryBuilder \<and> documentCollection (options (s this)) = p
           \<longrightarrow> prepareQuery (Suc fuel) this s = Throws (UnsafeIdentifier p)))"
  by (simp add: checkSafe_def safe_phrase_language setDocSelector_def setRootDocSelector_def
        addAdditionalQuery_def handleCommaSeparated_def buildEverything_def buildSelector_def
        buildSelector_Document_def)

text \<open>
  The theorem at the alias \<^verbatim>\<open>doc//\<close> of the test suite, at \<^verbatim>\<open>doc2\<close>, and at a collection name
  with a blank.
\<close>

theorem checkSafe_rejects_exactly_non_identifiers_witness:
  "''doc//'' \<notin> identifier_language \<and> ''doc2'' \<in> identifier_language
   \<and> checkSafe ''doc//'' one_document = Throws (UnsafeIdentifier ''doc//'')
   \<and> checkSafe ''doc2'' one_document = Returns () one_document
   \<and> setDocSelector 0 ''doc//'' one_document = Throws (UnsafeIdentifier ''doc//'')
   \<and> prepareQuery 1 0 (fresh_store(0 := new_ArangoDocumentQueryBuilder (document_options ''a b'')))
       = Throws (UnsafeIdentifier ''a b'')"
proof -
  have a: "''doc//'' \<notin> identifier_language" and b: "''doc2'' \<in> identifier_language"
    and c: "''a b'' \<notin> identifier_language"
    by (simp_all add: safe_phrase_language[symmetric] is_alpha_def is_ident_char_def is_digit_def)
  let ?s = "fresh_store(0 := new_ArangoDocumentQueryBuilder (document_options ''a b''))"
  have d: "cls (?s 0) = ArangoDocumentQueryBuilder \<and> documentCollection (options (?s 0)) = ''a b''"
    by (simp add: new_ArangoDocumentQueryBuilder_def new_builder_def document_options_def no_options_def)
  from checkSafe_rejects_exactly_non_identifiers[of "''doc//''" one_document 0 0 "[]" 0]
       checkSafe_rejects_exactly_non_identifiers[of "''doc2''" one_document 0 0 "[]" 0]
       checkSafe_rejects_exactly_non_identifiers[of "''a b''" ?s 0 0 "[]" 0] a b c d
  show ?thesis by simp
qed

text \<open>
  Claim C9. \<^verbatim>\<open>setDocSelector\<close> checks the identifier pattern only: when the builder already
  has a child under the field name \<open>n\<close> and \<open>n\<close> passes the guard, \<^verbatim>\<open>setDocSelector(n)\<close>
  returns, the row alias is \<open>n\<close>, the child is still registered under \<open>n\<close>, and the return
  clause built next merges the row \<open>n\<close> with a field list that contains \<open>n\<close>.
\<close>

theorem setDocSelector_accepts_child_name:
  assumes "safe_phrase n" and "(n, c) \<in> set (additionalQueries (s this))"
  shows "\<exists>s' s''. setDocSelector this n s = Returns () s'
           \<and> doc (s' this) = n
           \<and> additionalQueries (s' this) = additionalQueries (s this)
           \<and> n \<in> set (map fst (additionalQueries (s' this)))
           \<and> buildReturnClause this s' = Returns () s''
           \<and> returnClause (s'' this)
               = ''MERGE('' @ n @ '', { '' @ join '', '' (map fst (additionalQueries (s this))) @ '' })''"
proof -
  from assms(2) have "additionalQueries (s this) \<noteq> []" by auto
  moreover from assms(2) have "n \<in> fst ` set (additionalQueries (s this))" by force
  ultimately show ?thesis using assms(1)
    by (simp add: setDocSelector_def checkSafe_def buildReturnClause_def)
qed

text \<open>
  The theorem after \<^verbatim>\<open>addAdditionalQuery('related', ...)\<close>: the alias is then set to
  \<^verbatim>\<open>related\<close>, and the return clause is \<^verbatim>\<open>MERGE(related, { related })\<close>.
\<close>

theorem setDocSelector_accepts_child_name_witness:
  "\<exists>s1 s2 s3. addAdditionalQuery 0 ''related'' 1 two_builders = Returns () s1
     \<and> safe_phrase ''related'' \<and> (''related'', 1) \<in> set (additionalQueries (s1 0))
     \<and> setDocSelector 0 ''related'' s1 = Returns () s2
     \<and> doc (s2 0) = ''related'' \<and> ''related'' \<in> set (map fst (additionalQueries (s2 0)))
     \<and> buildReturnClause 0 s2 = Returns () s3
     \<and> returnClause (s3 0) = ''MERGE(related, { related })''"
proof -
  have a: "safe_phrase ''related''"
    by (simp add: is_alpha_def is_ident_char_def is_digit_def)
  obtain s1 where s1: "addAdditionalQuery 0 ''related'' 1 two_builders = Returns () s1"
    and ch: "additionalQueries (s1 0) = [(''related'', 1)]"
    using a by (simp add: addAdditionalQuery_def checkSafe_def two_builders_def setParentQuery_def
         new_ArangoDocumentQueryBuilder_def new_builder_def)
  then have b: "(''related'', 1) \<in> set (additionalQueries (s1 0))" by simp
  from setDocSelector_accepts_child_name[where s=s1 and this=0 and c=1 and n="''related''", OF a b]
       s1 ch a show ?thesis by auto
qed

text \<open>
  Claim C2, evaluated at its own example \<^verbatim>\<open>{a: {b: 1, c: 2}, d: 3}\<close>. The three leaves come
  in the order of the claim, but the path of the third is \<^verbatim>\<open>a.d\<close>, not \<^verbatim>\<open>d\<close>: the prefix
  \<^verbatim>\<open>a.\<close> that the loop appended to \<^verbatim>\<open>prevKey\<close> for the nested entry is still there when
  the sibling \<^verbatim>\<open>d\<close> is visited.
\<close>

theorem extractFilters_prefix_reaches_sibling:
  "\<exists>s'. extractFilters 0 nested_then_sibling [] one_document =
     Returns [(''doc.@path_1 == @filter_2'',
                 [''path_1'' \<mapsto> PrimArray [PString ''a'', PString ''b''], ''filter_2'' \<mapsto> Prim (PNumber 1)]),
              (''doc.@path_3 == @filter_4'',
                 [''path_3'' \<mapsto> PrimArray [PString ''a'', PString ''c''], ''filter_4'' \<mapsto> Prim (PNumber 2)]),
              (''doc.@path_5 == @filter_6'',
                 [''path_5'' \<mapsto> PrimArray [PString ''a'', PString ''d''], ''filter_6'' \<mapsto> Prim (PNumber 3)])] s'"
  by (simp add: nested_then_sibling_def one_document_def fresh_store_def leafFilter_def
        getNextGlobalTick_def getTopmostParentQuery_def getNextTick_def
        new_ArangoDocumentQueryBuilder_def new_ArangoBaseQueryBuilder_def new_builder_def
        digit_char_def string_of_nat.simps coalesce_def nullish_def checkPrimitive_def hasOwnProperty_def
        property_def Let_def)

section \<open>What a build leaves unchanged\<close>

lemma frame_refl [simp]: "frame s s"
  by (simp add: frame_def)

lemma frame_trans [trans]: "frame s s' \<Longrightarrow> frame s' s'' \<Longrightarrow> frame s s''"
  unfolding frame_def by (metis order_trans)

lemma frame_update:
  assumes "shape b = shape (s n)" "dom (bindVars (s n)) \<subseteq> dom (bindVars b)" "priv_tick (s n) \<le> priv_tick b"
  shows "frame s (s(n := b))"
  using assms by (simp add: frame_def)

lemma frame_links: "frame s s' \<Longrightarrow> same_links s s'"
  by (simp add: frame_def same_links_def shape_def)

lemma frame_topmost: "frame s s' \<Longrightarrow> getTopmostParentQuery n s' = getTopmostParentQuery n s"
  by (rule getTopmostParentQuery_links) (rule frame_links)

lemma frame_fields:
  assumes "frame s s'"
  shows "cls (s' n) = cls (s n)" "options (s' n) = options (s n)"
    "additionalQueries (s' n) = additionalQueries (s n)" "doc (s' n) = doc (s n)"
    "priv_parent (s' n) = priv_parent (s n)" "priv_isRootQuery (s' n) = priv_isRootQuery (s n)"
  using assms by (simp_all add: frame_def shape_def)

lemma getNextGlobalTick_Returns:
  "getNextGlobalTick this s = Returns t s' \<longleftrightarrow>
     (\<exists>r. getTopmostParentQuery this s = Some r \<and> t = Suc (priv_tick (s r))
          \<and> s' = s(r := (s r)\<lparr>priv_tick := Suc (priv_tick (s r))\<rparr>))"
  by (auto simp: getNextGlobalTick_def getNextTick_def Let_def split: option.splits)

lemma getNextGlobalTick_not_Throws [simp]: "getNextGlobalTick this s \<noteq> Throws e"
  by (simp add: getNextGlobalTick_def getNextTick_def Let_def split: option.splits)

lemma frame_tick: "frame s (s(r := (s r)\<lparr>priv_tick := Suc (priv_tick (s r))\<rparr>))"
  by (rule frame_update) (simp_all add: shape_def)

lemma frame_getNextGlobalTick: "getNextGlobalTick this s = Returns t s' \<Longrightarrow> frame s s'"
  by (auto simp: getNextGlobalTick_Returns frame_tick)

lemma frame_set_bindVar: "frame s (set_bindVar this k v s)"
  unfolding set_bindVar_def by (rule frame_update) (auto simp: shape_def)

lemma frame_leafFilter: "leafFilter this key v prevKey s = Returns q s' \<Longrightarrow> frame s s'"
  by (auto simp: leafFilter_def Let_def bind_Returns_iff split: option.splits prod.splits
        dest!: frame_getNextGlobalTick intro: frame_trans)

lemma frame_extractFilters: "extractFilters this f prevKey s = Returns qs s' \<Longrightarrow> frame s s'"
proof (induction this f prevKey s arbitrary: qs s' rule: extractFilters.induct)
  case (1 this prevKey s)
  then show ?case by simp
next
  case (2 this key p rest prevKey s)
  then show ?case
    by (auto simp: bind_Returns_iff dest!: frame_leafFilter intro: frame_trans)
next
  case (3 this key ps rest prevKey s)
  then show ?case
    by (auto simp: bind_Returns_iff dest!: frame_leafFilter intro: frame_trans)
next
  case (4 this key es rest prevKey s)
  show ?case
  proof (cases "isFilterPrimitiveType (Object es) \<or> isFilterProperFilterObject (Object es)")
    case True
    with 4(1)[OF True] 4(4) show ?thesis
      by (auto simp: bind_Returns_iff simp del: isFilterProperFilterObject.simps
            dest!: frame_leafFilter intro: frame_trans)
  next
    case False
    with 4(2)[OF False refl] 4(3)[OF False refl] 4(4) show ?thesis
      by (auto simp: bind_Returns_iff Let_def simp del: isFilterProperFilterObject.simps
            intro: frame_trans)
  qed
qed

lemma bind_ReturnsE:
  assumes "bind m f = Returns b s'"
  obtains a s1 where "m = Returns a s1" "f a s1 = Returns b s'"
  using assms by (cases m) auto

lemma dom_fold_merge:
  "dom (fold (\<lambda>f bv. snd f ++ bv) fs bv0) = dom bv0 \<union> (\<Union>f\<in>set fs. dom (snd f))"
  by (induction fs arbitrary: bv0) auto

lemma frame_then_update:
  assumes "frame s s1" "shape b = shape (s1 n)" "dom (bindVars (s1 n)) \<subseteq> dom (bindVars b)"
    "priv_tick (s1 n) \<le> priv_tick b"
  shows "frame s (s1(n := b))"
proof -
  have "frame s1 (s1(n := b))" using assms(2-4) by (rule frame_update)
  with assms(1) show ?thesis by (rule frame_trans)
qed

lemma frame_then_set_bindVar: "frame s s1 \<Longrightarrow> frame s (set_bindVar this k v s1)"
  by (erule frame_trans) (rule frame_set_bindVar)

lemma frame_buildFilter:
  assumes "buildFilter this s = Returns u s'"
  shows "frame s s'"
proof (cases "filterBy (options (s this))")
  case None
  with assms show ?thesis by (simp add: buildFilter_def)
next
  case (Some f)
  with assms obtain filters s1 where ex: "extractFilters this f [] s = Returns filters s1"
    and s': "s' = s1(this := (s1 this)\<lparr>filter' := ''FILTER '' @ join '' && '' (map fst filters) @ '' '',
                 bindVars := fold (\<lambda>f bv. snd f ++ bv) filters (bindVars (s1 this))\<rparr>)"
    by (auto simp: buildFilter_def Let_def elim!: bind_ReturnsE)
  from ex have "frame s s1" by (rule frame_extractFilters)
  then show ?thesis unfolding s'
    by (rule frame_then_update) (simp_all add: shape_def dom_fold_merge)
qed

lemma frame_buildSort:
  assumes "buildSort this s = Returns u s'"
  shows "frame s s'"
proof (cases "sortBy (options (s this))")
  case None
  with assms show ?thesis by (simp add: buildSort_def)
next
  case (Some sb)
  with assms obtain t1 s1 t2 s2 where t1: "getNextGlobalTick this s = Returns t1 s1"
    and t2: "getNextGlobalTick this s1 = Returns t2 s2"
    and s': "s' = set_bindVar this (''sortOrder_'' @ string_of_nat t2)
                   (Prim (PString (case order sb of ASC \<Rightarrow> ''ASC'' | DESC \<Rightarrow> ''DESC'')))
                (set_bindVar this (''sortField_'' @ string_of_nat t1)
                   (PrimArray (map PString (split CHR ''.'' (field sb))))
                (s2(this := (s2 this)\<lparr>sort' := ''SORT '' @ doc (s2 this) @ ''.@'' @ (''sortField_'' @ string_of_nat t1)
                                                    @ '' @'' @ (''sortOrder_'' @ string_of_nat t2) @ '' ''\<rparr>)))"
    by (auto simp: buildSort_def Let_def elim!: bind_ReturnsE)
  from t1 t2 have "frame s s2" by (metis frame_trans frame_getNextGlobalTick)
  then show ?thesis unfolding s'
    by (intro frame_then_set_bindVar frame_then_update) (simp_all add: shape_def)
qed

lemma frame_buildLimit:
  assumes "buildLimit this s = Returns u s'"
  shows "frame s s'"
proof (cases "limitBy (options (s this))")
  case None
  with assms show ?thesis by (simp add: buildLimit_def)
next
  case (Some lb)
  with assms obtain t1 s1 t2 s2 where t1: "getNextGlobalTick this s = Returns t1 s1"
    and t2: "getNextGlobalTick this s1 = Returns t2 s2"
    and s': "s' = set_bindVar this (''limitByLimit_'' @ string_of_nat t2) (Prim (PNumber (limit lb)))
                (set_bindVar this (''limitByOffset_'' @ string_of_nat t1) (Prim (PNumber (offset lb)))
                (s2(this := (s2 this)\<lparr>limit' := ''LIMIT @'' @ (''limitByOffset_'' @ string_of_nat t1)
                     @ '', @'' @ (''limitByLimit_'' @ string_of_nat t2) @ '' ''\<rparr>)))"
    by (auto simp: buildLimit_def Let_def elim!: bind_ReturnsE)
  from t1 t2 have "frame s s2" by (metis frame_trans frame_getNextGlobalTick)
  then show ?thesis unfolding s'
    by (intro frame_then_set_bindVar frame_then_update) (simp_all add: shape_def)
qed

lemma frame_handleCommaSeparated_loop:
  "handleCommaSeparated_loop this vs k st s = Returns x s' \<Longrightarrow> frame s s'"
proof (induction vs arbitrary: st s)
  case Nil
  then show ?case by simp
next
  case (Cons v vs)
  from Cons.prems obtain t s1 st1 where t: "getNextGlobalTick this s = Returns t s1"
    and rest: "handleCommaSeparated_loop this vs k st1
                 (set_bindVar this (''@'' @ k @ ''_'' @ string_of_nat t) (Prim (PString v)) s1) = Returns x s'"
    by (simp add: Let_def) (erule bind_ReturnsE, blast)
  from t have "frame s s1" by (rule frame_getNextGlobalTick)
  then have "frame s (set_bindVar this (''@'' @ k @ ''_'' @ string_of_nat t) (Prim (PString v)) s1)"
    by (rule frame_then_set_bindVar)
  then show ?case using Cons.IH[OF rest] by (rule frame_trans)
qed

lemma checkSafe_Returns: "checkSafe p s = Returns u s' \<longleftrightarrow> safe_phrase p \<and> s' = s"
  by (auto simp: checkSafe_def)

lemma frame_handleCommaSeparated:
  "handleCommaSeparated this vs k s = Returns x s' \<Longrightarrow> frame s s'"
  by (auto simp: handleCommaSeparated_def checkSafe_Returns split: if_splits
        elim!: bind_ReturnsE dest: frame_handleCommaSeparated_loop)

lemma frame_buildWithClause:
  assumes "buildWithClause fuel this s = Returns u s'"
  shows "frame s s'"
proof (cases "priv_isRootQuery (s this)")
  case False
  with assms show ?thesis by (simp add: buildWithClause_def)
next
  case True
  show ?thesis
  proof (cases "gatherRelatedCollectionsRecursively fuel s this")
    case None
    with True assms show ?thesis by (simp add: buildWithClause_def)
  next
    case (Some targets)
    show ?thesis
    proof (cases "targets = []")
      case True
      with \<open>priv_isRootQuery (s this)\<close> Some assms show ?thesis by (simp add: buildWithClause_def)
    next
      case False
      with \<open>priv_isRootQuery (s this)\<close> Some assms obtain st s1
        where h: "handleCommaSeparated this targets ''target'' s = Returns st s1"
          and s': "s' = s1(this := (s1 this)\<lparr>withClause := ''WITH '' @ st @ '' ''\<rparr>)"
        by (auto simp: buildWithClause_def elim!: bind_ReturnsE)
      from h have "frame s s1" by (rule frame_handleCommaSeparated)
      then show ?thesis unfolding s' by (rule frame_then_update) (simp_all add: shape_def)
    qed
  qed
qed

lemma frame_buildReturnClause: "buildReturnClause this s = Returns u s' \<Longrightarrow> frame s s'"
  by (auto simp: buildReturnClause_def shape_def split: if_splits intro!: frame_update)

lemma frame_buildSelector_Document:
  assumes "buildSelector_Document this s = Returns u s'"
  shows "frame s s'"
proof -
  from assms obtain t s1 where t: "getNextGlobalTick this s = Returns t s1"
    and s': "s' = set_bindVar this (''@'' @ (''collection_'' @ string_of_nat t))
                    (Prim (PString (documentCollection (options (s1 this)))))
                 (s1(this := (s1 this)\<lparr>selector := ''FOR '' @ doc (s1 this) @ '' IN @@''
                       @ (''collection_'' @ string_of_nat t) @ '' ''\<rparr>))"
    by (auto simp: buildSelector_Document_def Let_def checkSafe_Returns elim!: bind_ReturnsE)
  from t have "frame s s1" by (rule frame_getNextGlobalTick)
  then show ?thesis unfolding s'
    by (intro frame_then_set_bindVar frame_then_update) (simp_all add: shape_def)
qed

lemma frame_buildEdges:
  assumes "buildEdges this s = Returns u s'"
  shows "frame s s'"
proof -
  from assms obtain vs st s1 where h: "handleCommaSeparated this vs ''edge'' s = Returns st s1"
    and s': "s' = s1(this := (s1 this)\<lparr>edges := st\<rparr>)"
    by (auto simp: buildEdges_def Let_def elim!: bind_ReturnsE)
  from h have "frame s s1" by (rule frame_handleCommaSeparated)
  then show ?thesis unfolding s' by (rule frame_then_update) (simp_all add: shape_def)
qed

lemma frame_buildStartingVertexId:
  assumes "buildStartingVertexId this s = Returns u s'"
  shows "frame s s'"
proof (cases "truthy_string (startingVertexId (options (s this)))")
  case (Some v)
  with assms obtain t s1 where t: "getNextGlobalTick this s = Returns t s1"
    and s': "s' = set_bindVar this (''starting_vertex_'' @ string_of_nat t) (Prim (PString v))
                  (s1(this := (s1 this)\<lparr>startingVertexId' := ''@'' @ (''starting_vertex_'' @ string_of_nat t)\<rparr>))"
    by (auto simp: buildStartingVertexId_def Let_def split: if_splits elim!: bind_ReturnsE)
  from t have "frame s s1" by (rule frame_getNextGlobalTick)
  then show ?thesis unfolding s'
    by (intro frame_then_set_bindVar frame_then_update) (simp_all add: shape_def)
next
  case None
  with assms obtain u1 s1 where
    s1: "(if rootDoc (s this) = [] then
            (case getTopmostParentQuery this s of
               None \<Rightarrow> Diverges
             | Some parent \<Rightarrow>
                 if parent = this then Throws MissingStartingVertex
                 else Returns () (s(this := (s this)\<lparr>rootDoc := getDocSelector parent s\<rparr>)))
          else Returns () s) = Returns u1 s1"
    and s': "s' = s1(this := (s1 this)\<lparr>startingVertexId' := rootDoc (s1 this) @ ''._id''\<rparr>)"
    unfolding buildStartingVertexId_def by (auto elim!: bind_ReturnsE)
  from s1 have "frame s s1"
    by (auto intro!: frame_update simp: shape_def split: if_splits option.splits)
  then show ?thesis unfolding s' by (rule frame_then_update) (simp_all add: shape_def)
qed

lemma frame_buildSelector_Edge:
  assumes "buildSelector_Edge this s = Returns u s'"
  shows "frame s s'"
proof -
  from assms obtain s0 s1 t s2 where e: "buildEdges this s = Returns () s0"
    and v: "buildStartingVertexId this s0 = Returns () s1"
    and t: "getNextGlobalTick this s1 = Returns t s2"
    and s': "s' = set_bindVar this (''depth_'' @ string_of_nat t)
                (case depth (options (s2 this)) of None \<Rightarrow> Prim PUndefined | Some d \<Rightarrow> Prim (PNumber d))
                (s2(this := (s2 this)\<lparr>selector :=
                   ''FOR '' @ doc (s2 this) @ '' IN 1..@'' @ (''depth_'' @ string_of_nat t) @ '' ''
                   @ string_of_direction (direction (options (s2 this))) @ '' ''
                   @ startingVertexId' (s2 this) @ '' '' @ edges (s2 this) @ '' ''\<rparr>))"
    by (auto simp: buildSelector_Edge_def Let_def elim!: bind_ReturnsE)
  from e have "frame s s0" by (rule frame_buildEdges)
  also from v have "frame s0 s1" by (rule frame_buildStartingVertexId)
  also from t have "frame s1 s2" by (rule frame_getNextGlobalTick)
  finally have "frame s s2" .
  then show ?thesis unfolding s'
    by (intro frame_then_set_bindVar frame_then_update) (simp_all add: shape_def)
qed

lemma frame_buildSelector: "buildSelector this s = Returns u s' \<Longrightarrow> frame s s'"
  by (auto simp: buildSelector_def split: builder_class.splits
        dest: frame_buildSelector_Document frame_buildSelector_Edge)

lemma frame_buildAdditionalQueries_loop:
  assumes prep: "\<forall>c s q s'. prep c s = Returns q s' \<longrightarrow> frame s s' \<and> snd q = bindVars (s' c)"
  shows "buildAdditionalQueries_loop prep this es qs s = Returns x s' \<Longrightarrow> frame s s'"
proof (induction es arbitrary: qs s)
  case Nil
  then show ?case by simp
next
  case (Cons e es)
  from Cons.prems obtain q s1 qs1 where p: "prep (snd e) s = Returns q s1"
    and rest: "buildAdditionalQueries_loop prep this es qs1
                 (s1(this := (s1 this)\<lparr>bindVars := snd q ++ bindVars (s1 this)\<rparr>)) = Returns x s'"
    by (auto simp: Let_def elim!: bind_ReturnsE)
  from p have "frame s s1" using prep by blast
  then have "frame s (s1(this := (s1 this)\<lparr>bindVars := snd q ++ bindVars (s1 this)\<rparr>))"
    by (rule frame_then_update) (simp_all add: shape_def)
  then show ?case using Cons.IH[OF rest] by (rule frame_trans)
qed

lemma frame_buildAdditionalQueries:
  assumes prep: "\<forall>c s q s'. prep c s = Returns q s' \<longrightarrow> frame s s' \<and> snd q = bindVars (s' c)"
    and "buildAdditionalQueries prep this s = Returns u s'"
  shows "frame s s'"
proof (cases "additionalQueries (s this) = []")
  case True
  with assms(2) show ?thesis by (simp add: buildAdditionalQueries_def)
next
  case False
  with assms(2) obtain qs s1 where
    l: "buildAdditionalQueries_loop prep this (additionalQueries (s this)) [] s = Returns qs s1"
    and s': "s' = s1(this := (s1 this)\<lparr>inlineQueries := concat qs\<rparr>)"
    by (auto simp: buildAdditionalQueries_def elim!: bind_ReturnsE)
  from prep l have "frame s s1" by (rule frame_buildAdditionalQueries_loop)
  then show ?thesis unfolding s' by (rule frame_then_update) (simp_all add: shape_def)
qed

lemma frame_buildEverything:
  assumes prep: "\<forall>c s q s'. prep c s = Returns q s' \<longrightarrow> frame s s' \<and> snd q = bindVars (s' c)"
    and "buildEverything fuel prep this s = Returns u s'"
  shows "frame s s'"
proof -
  from assms(2) obtain s1 s2 s3 s4 s5 s6 where
    1: "buildSelector this s = Returns () s1" and 2: "buildFilter this s1 = Returns () s2" and
    3: "buildSort this s2 = Returns () s3" and 4: "buildLimit this s3 = Returns () s4" and
    5: "buildWithClause fuel this s4 = Returns () s5" and 6: "buildReturnClause this s5 = Returns () s6" and
    7: "buildAdditionalQueries prep this s6 = Returns u s'"
    unfolding buildEverything_def by (elim bind_ReturnsE) auto
  from 1 have "frame s s1" by (rule frame_buildSelector)
  also from 2 have "frame s1 s2" by (rule frame_buildFilter)
  also from 3 have "frame s2 s3" by (rule frame_buildSort)
  also from 4 have "frame s3 s4" by (rule frame_buildLimit)
  also from 5 have "frame s4 s5" by (rule frame_buildWithClause)
  also from 6 have "frame s5 s6" by (rule frame_buildReturnClause)
  also from prep 7 have "frame s6 s'" by (rule frame_buildAdditionalQueries)
  finally show ?thesis .
qed

lemma prepareQuery_frame_bindVars:
  "prepareQuery fuel this s = Returns q s' \<Longrightarrow> frame s s' \<and> snd q = bindVars (s' this)"
proof (induction fuel arbitrary: this s q s')
  case 0
  then show ?case by simp
next
  case (Suc fuel)
  from Suc.prems obtain s1 where b: "buildEverything (Suc fuel) (prepareQuery fuel) this s = Returns () s1"
    and q: "q = (query_text (s1 this), bindVars (s1 this))" and s': "s' = s1"
    by (auto elim!: bind_ReturnsE)
  have "\<forall>c s q s'. prepareQuery fuel c s = Returns q s' \<longrightarrow> frame s s' \<and> snd q = bindVars (s' c)"
    using Suc.IH by blast
  then have "frame s s1" using b by (rule frame_buildEverything)
  with q s' show ?case by simp
qed

section \<open>Printed ticks\<close>

lemma digit_char_inj: "d < 10 \<Longrightarrow> e < 10 \<Longrightarrow> digit_char d = digit_char e \<Longrightarrow> d = e"
proof -
  assume a: "d < 10" "e < 10" "digit_char d = digit_char e"
  have "distinct ''0123456789''" by simp
  moreover have "d < length ''0123456789''" "e < length ''0123456789''" using a by simp_all
  ultimately show "d = e" using a(3) unfolding digit_char_def
    by (simp only: nth_eq_iff_index_eq)
qed

lemma digit_char_is_digit: "d < 10 \<Longrightarrow> is_digit (digit_char d)"
proof -
  assume "d < 10"
  then have "d \<in> {0,1,2,3,4,5,6,7,8,9}" by auto
  then show ?thesis by (auto simp: digit_char_def is_digit_def)
qed

lemma string_of_nat_nonempty: "string_of_nat n \<noteq> []"
  by (subst string_of_nat.simps) simp

lemma string_of_nat_digits: "list_all is_digit (string_of_nat n)"
proof (induction n rule: string_of_nat.induct)
  case (1 n)
  show ?case
  proof (cases "n < 10")
    case True
    then show ?thesis by (subst string_of_nat.simps) (simp add: digit_char_is_digit)
  next
    case False
    with 1 show ?thesis by (subst string_of_nat.simps) (simp add: digit_char_is_digit)
  qed
qed

lemma string_of_nat_small: "n < 10 \<Longrightarrow> string_of_nat n = [digit_char n]"
  by (subst string_of_nat.simps) simp

lemma string_of_nat_large:
  "\<not> n < 10 \<Longrightarrow> string_of_nat n = string_of_nat (n div 10) @ [digit_char (n mod 10)]"
  by (subst string_of_nat.simps) simp

lemma string_of_nat_inj: "string_of_nat n = string_of_nat m \<Longrightarrow> n = m"
proof (induction n arbitrary: m rule: string_of_nat.induct)
  case (1 n)
  show ?case
  proof (cases "n < 10")
    case n: True
    show ?thesis
    proof (cases "m < 10")
      case True
      with n 1(2) show ?thesis by (simp add: string_of_nat_small digit_char_inj)
    next
      case False
      with n 1(2) show ?thesis
        using string_of_nat_nonempty[of "m div 10"]
        by (simp add: string_of_nat_small string_of_nat_large)
    qed
  next
    case n: False
    show ?thesis
    proof (cases "m < 10")
      case True
      with n 1(2) show ?thesis
        using string_of_nat_nonempty[of "n div 10"]
        by (simp add: string_of_nat_small string_of_nat_large)
    next
      case False
      with n 1(2) have "string_of_nat (n div 10) = string_of_nat (m div 10)"
        and "digit_char (n mod 10) = digit_char (m mod 10)"
        by (simp_all add: string_of_nat_large)
      then have "n div 10 = m div 10" and "n mod 10 = m mod 10"
        using 1(1)[OF n] by (auto intro: digit_char_inj)
      then show ?thesis by (metis div_mult_mod_eq)
    qed
  qed
qed

section \<open>Termination of the parent walk\<close>

lemma getNextGlobalTick_Diverges:
  "getNextGlobalTick n s = Diverges \<longleftrightarrow> getTopmostParentQuery n s = None"
  by (simp add: getNextGlobalTick_def getNextTick_def Let_def split: option.splits)

text \<open>
  Claim C10. In a store whose root flags agree with the parent references,
  \<^verbatim>\<open>getTopmostParentQuery\<close> returns exactly for the builders whose parent chain ends: it then
  returns a builder without a parent, and \<^verbatim>\<open>getNextGlobalTick\<close> returns the next value of
  that builder's counter. When the chain does not end, the walk never returns, and neither
  does \<^verbatim>\<open>getNextGlobalTick\<close>: nothing in the loop detects a cycle.
\<close>

theorem getTopmostParentQuery_returns_iff_chain_ends:
  assumes "flags_consistent s"
  shows "(chain_ends s n \<longrightarrow>
           (\<exists>r. getTopmostParentQuery n s = Some r \<and> priv_parent (s r) = None
              \<and> (\<exists>s'. getNextGlobalTick n s = Returns (Suc (priv_tick (s r))) s')))
       \<and> (\<not> chain_ends s n \<longrightarrow>
           getTopmostParentQuery n s = None \<and> getNextGlobalTick n s = Diverges)"
proof (intro conjI impI)
  assume "chain_ends s n"
  then obtain r where r: "getTopmostParentQuery n s = Some r" "priv_parent (s r) = None"
    using assms getTopmostParentQuery_ends by blast
  then show "\<exists>r. getTopmostParentQuery n s = Some r \<and> priv_parent (s r) = None
              \<and> (\<exists>s'. getNextGlobalTick n s = Returns (Suc (priv_tick (s r))) s')"
    by (auto simp: getNextGlobalTick_Returns)
next
  assume n: "\<not> chain_ends s n"
  show "getTopmostParentQuery n s = None"
  proof (cases "getTopmostParentQuery n s")
    case (Some r)
    then have "chain_ends s n" using assms by (rule getTopmostParentQuery_Some_chain)
    with n show ?thesis by simp
  qed simp
  then show "getNextGlobalTick n s = Diverges" by (simp add: getNextGlobalTick_Diverges)
qed

lemma cyclic_pair_never_ends: "chain_ends cyclic_pair n \<Longrightarrow> n \<noteq> 0 \<and> n \<noteq> 1"
  by (induction rule: chain_ends.induct) (auto simp: cyclic_pair_def split: if_splits)

text \<open>
  The theorem at a parent with one child, and at two builders that are each other's
  parent.
\<close>

theorem getTopmostParentQuery_returns_iff_chain_ends_witness:
  "flags_consistent parent_and_child \<and> chain_ends parent_and_child 1
   \<and> getTopmostParentQuery 1 parent_and_child = Some 0
   \<and> (\<exists>s'. getNextGlobalTick 1 parent_and_child = Returns 1 s')
   \<and> flags_consistent cyclic_pair \<and> \<not> chain_ends cyclic_pair 0
   \<and> getTopmostParentQuery 0 cyclic_pair = None \<and> getNextGlobalTick 0 cyclic_pair = Diverges"
proof -
  have f1: "flags_consistent parent_and_child"
    by (simp add: flags_consistent_def parent_and_child_def fresh_store_def
          new_ArangoDocumentQueryBuilder_def new_ArangoEdgeQueryBuilder_def
          new_ArangoBaseQueryBuilder_def new_builder_def)
  have f2: "flags_consistent cyclic_pair"
    by (simp add: flags_consistent_def cyclic_pair_def fresh_store_def
          new_ArangoDocumentQueryBuilder_def new_ArangoBaseQueryBuilder_def new_builder_def)
  have "chain_ends parent_and_child 0"
    by (rule chain_ends.no_parent)
       (simp add: parent_and_child_def new_ArangoDocumentQueryBuilder_def new_builder_def)
  then have c1: "chain_ends parent_and_child 1"
    by (rule chain_ends.has_parent[rotated]) (simp add: parent_and_child_def)
  have c2: "\<not> chain_ends cyclic_pair 0" using cyclic_pair_never_ends by blast
  have t: "priv_tick (parent_and_child 0) = 0"
    by (simp add: parent_and_child_def new_ArangoDocumentQueryBuilder_def new_builder_def)
  have p: "priv_parent (parent_and_child 1) = Some 0" "priv_parent (parent_and_child 0) = None"
    "priv_isRootQuery (parent_and_child 0)"
    by (simp_all add: parent_and_child_def new_ArangoDocumentQueryBuilder_def new_builder_def)
  then have top: "getTopmostParentQuery 1 parent_and_child = Some 0"
    by (simp add: getTopmostParentQuery_def isRootQuery_def)
  from getTopmostParentQuery_returns_iff_chain_ends[OF f1, of 1]
       getTopmostParentQuery_returns_iff_chain_ends[OF f2, of 0] f1 f2 c1 c2 t top
  show ?thesis by auto
qed

text \<open>
  Trees built by \<^verbatim>\<open>addAdditionalQuery\<close> alone keep every chain finite, as long as no
  builder is attached below one of its own descendants.
\<close>

lemma chain_ends_after_attach_outside:
  assumes "chain_ends s x" and "child \<notin> ancestors s x"
    and "\<forall>m. m \<noteq> child \<longrightarrow> priv_parent (s' m) = priv_parent (s m)"
  shows "chain_ends s' x"
  using assms(1,2)
proof (induction rule: chain_ends.induct)
  case (no_parent n)
  then have "n \<noteq> child" using ancestors.self[of n s] by auto
  with no_parent assms(3) show ?case by (auto intro: chain_ends.no_parent)
next
  case (has_parent n p)
  then have n: "n \<noteq> child" using ancestors.self[of n s] by auto
  have "child \<notin> ancestors s p"
  proof
    assume "child \<in> ancestors s p"
    then have "child \<in> ancestors s n"
    proof (induction rule: ancestors.induct)
      case self
      show ?case using ancestors.self has_parent(1) by (rule ancestors.up)
    next
      case (up a b)
      then show ?case by (blast intro: ancestors.up)
    qed
    with has_parent(4) show False by simp
  qed
  then have "chain_ends s' p" by (rule has_parent.IH)
  moreover from n has_parent(1) assms(3) have "priv_parent (s' n) = Some p" by simp
  ultimately show ?case by (blast intro: chain_ends.has_parent)
qed

lemma addAdditionalQuery_keeps_chains:
  assumes all: "\<forall>m. chain_ends s m" and flags: "flags_consistent s"
    and outside: "child \<notin> ancestors s this"
    and add: "addAdditionalQuery this f child s = Returns () s'"
  shows "(\<forall>m. chain_ends s' m) \<and> flags_consistent s'"
proof -
  from add have s': "s' = (setParentQuery child this s)
      (this := (setParentQuery child this s this)
         \<lparr>additionalQueries := map_set f child (additionalQueries (setParentQuery child this s this))\<rparr>)"
    by (auto simp: addAdditionalQuery_def checkSafe_Returns Let_def split: if_splits elim!: bind_ReturnsE)
  have par: "\<forall>m. m \<noteq> child \<longrightarrow> priv_parent (s' m) = priv_parent (s m)"
    and child: "priv_parent (s' child) = Some this"
    and flag: "\<forall>m. m \<noteq> child \<longrightarrow> priv_isRootQuery (s' m) = priv_isRootQuery (s m)"
    and cflag: "\<not> priv_isRootQuery (s' child)"
    unfolding s' by (auto simp: setParentQuery_def)
  from all outside par have attached: "chain_ends s' this"
    by (blast intro: chain_ends_after_attach_outside)
  have "chain_ends s' m" for m
  proof -
    from all have "chain_ends s m" by simp
    then show ?thesis
    proof (induction rule: chain_ends.induct)
      case (no_parent n)
      show ?case
      proof (cases "n = child")
        case True
        with child attached show ?thesis by (blast intro: chain_ends.has_parent)
      next
        case False
        with no_parent par show ?thesis by (auto intro: chain_ends.no_parent)
      qed
    next
      case (has_parent n p)
      show ?case
      proof (cases "n = child")
        case True
        with child attached show ?thesis by (blast intro: chain_ends.has_parent)
      next
        case False
        with has_parent par have "priv_parent (s' n) = Some p" by simp
        with has_parent.IH show ?thesis by (blast intro: chain_ends.has_parent)
      qed
    qed
  qed
  moreover have "flags_consistent s'"
    unfolding flags_consistent_def
  proof
    fix n
    show "priv_isRootQuery (s' n) \<longleftrightarrow> priv_parent (s' n) = None"
    proof (cases "n = child")
      case True
      with child cflag show ?thesis by simp
    next
      case False
      with par flag flags show ?thesis by (simp add: flags_consistent_def)
    qed
  qed
  ultimately show ?thesis by simp
qed

section \<open>Comma-separated declarations\<close>

lemma generated_names_0 [simp]: "generated_names k T 0 = []"
  by (simp add: generated_names_def)

lemma upt_Suc_shift: "[Suc T ..< Suc (T + Suc n)] = Suc T # [Suc (Suc T) ..< Suc (Suc T + n)]"
  by (simp add: upt_conv_Cons)

lemma generated_names_Suc:
  "generated_names k T (Suc n) = (k @ ''_'' @ string_of_nat (Suc T)) # generated_names k (Suc T) n"
  unfolding generated_names_def upt_Suc_shift by simp

lemma length_generated_names [simp]: "length (generated_names k T n) = n"
  by (simp add: generated_names_def)

lemma join_Cons: "join sep (x # xs) = (if xs = [] then x else x @ sep @ join sep xs)"
  by (cases xs) simp_all

lemma only_binds_and_ticks_refl [simp]: "only_binds_and_ticks s s"
  by (simp add: only_binds_and_ticks_def)

lemma only_binds_and_ticks_trans [trans]:
  assumes "only_binds_and_ticks s s'" "only_binds_and_ticks s' s''"
  shows "only_binds_and_ticks s s''"
  unfolding only_binds_and_ticks_def
proof
  fix n
  from assms(2) have "(s'' n)\<lparr>bindVars := bindVars (s' n), priv_tick := priv_tick (s' n)\<rparr> = s' n"
    by (simp add: only_binds_and_ticks_def)
  then have "((s'' n)\<lparr>bindVars := bindVars (s' n), priv_tick := priv_tick (s' n)\<rparr>)
               \<lparr>bindVars := bindVars (s n), priv_tick := priv_tick (s n)\<rparr>
             = (s' n)\<lparr>bindVars := bindVars (s n), priv_tick := priv_tick (s n)\<rparr>" by simp
  also from assms(1) have "\<dots> = s n" by (simp add: only_binds_and_ticks_def)
  finally show "(s'' n)\<lparr>bindVars := bindVars (s n), priv_tick := priv_tick (s n)\<rparr> = s n" by simp
qed

lemma only_binds_and_ticks_tick:
  "only_binds_and_ticks s (s(r := (s r)\<lparr>priv_tick := t\<rparr>))"
  by (simp add: only_binds_and_ticks_def)

lemma only_binds_and_ticks_set_bindVar: "only_binds_and_ticks s (set_bindVar this k v s)"
  by (simp add: only_binds_and_ticks_def set_bindVar_def)

lemma only_binds_and_ticks_fields:
  assumes "only_binds_and_ticks s s'"
  shows "rootDoc (s' n) = rootDoc (s n)" "edges (s' n) = edges (s n)"
    "startingVertexId' (s' n) = startingVertexId' (s n)" "selector (s' n) = selector (s n)"
    "filter' (s' n) = filter' (s n)" "sort' (s' n) = sort' (s n)" "limit' (s' n) = limit' (s n)"
    "withClause (s' n) = withClause (s n)" "returnClause (s' n) = returnClause (s n)"
    "inlineQueries (s' n) = inlineQueries (s n)" "shape (s' n) = shape (s n)"
proof -
  from assms have e: "(s' n)\<lparr>bindVars := bindVars (s n), priv_tick := priv_tick (s n)\<rparr> = s n"
    by (simp add: only_binds_and_ticks_def)
  show "rootDoc (s' n) = rootDoc (s n)" using arg_cong[OF e, of rootDoc] by simp
  show "edges (s' n) = edges (s n)" using arg_cong[OF e, of edges] by simp
  show "startingVertexId' (s' n) = startingVertexId' (s n)" using arg_cong[OF e, of startingVertexId'] by simp
  show "selector (s' n) = selector (s n)" using arg_cong[OF e, of selector] by simp
  show "filter' (s' n) = filter' (s n)" using arg_cong[OF e, of filter'] by simp
  show "sort' (s' n) = sort' (s n)" using arg_cong[OF e, of sort'] by simp
  show "limit' (s' n) = limit' (s n)" using arg_cong[OF e, of limit'] by simp
  show "withClause (s' n) = withClause (s n)" using arg_cong[OF e, of withClause] by simp
  show "returnClause (s' n) = returnClause (s n)" using arg_cong[OF e, of returnClause] by simp
  show "inlineQueries (s' n) = inlineQueries (s n)" using arg_cong[OF e, of inlineQueries] by simp
  show "shape (s' n) = shape (s n)" using arg_cong[OF e, of shape] by (simp add: shape_def)
qed

lemma tick_then_bind:
  assumes "getTopmostParentQuery this s = Some r"
  shows "priv_tick (set_bindVar this k v (s(r := (s r)\<lparr>priv_tick := t\<rparr>)) r) = t"
    and "bindVars (set_bindVar this k v (s(r := (s r)\<lparr>priv_tick := t\<rparr>)) this) = (bindVars (s this))(k \<mapsto> v)"
    and "n \<noteq> this \<Longrightarrow> bindVars (set_bindVar this k v (s(r := (s r)\<lparr>priv_tick := t\<rparr>)) n) = bindVars (s n)"
    and "n \<noteq> r \<Longrightarrow> priv_tick (set_bindVar this k v (s(r := (s r)\<lparr>priv_tick := t\<rparr>)) n) = priv_tick (s n)"
  by (simp_all add: set_bindVar_def)

lemma map_upd_add_rev: "m(k \<mapsto> v) ++ map_of (rev z) = m ++ map_of (rev ((k, v) # z))"
proof -
  have "m ++ map_of (rev ((k, v) # z)) = m ++ ([k \<mapsto> v] ++ map_of (rev z))" by simp
  also have "\<dots> = (m ++ [k \<mapsto> v]) ++ map_of (rev z)" by (simp only: map_add_assoc)
  also have "m ++ [k \<mapsto> v] = m(k \<mapsto> v)" by simp
  finally show ?thesis by simp
qed

lemma append_at: "(@) ''@'' = (#) CHR ''@''" and append_at_at: "(@) ''@@'' = (\<lambda>x. CHR ''@'' # CHR ''@'' # x)"
  by (simp_all add: fun_eq_iff)

lemma handleCommaSeparated_loop_effect:
  assumes "getTopmostParentQuery this s = Some r"
  shows "\<exists>s'. handleCommaSeparated_loop this vs k st s
            = Returns (st @ join '', '' (map (\<lambda>x. ''@@'' @ x) (generated_names k (priv_tick (s r)) (length vs)))) s'
          \<and> priv_tick (s' r) = priv_tick (s r) + length vs
          \<and> bindVars (s' this) = bindVars (s this) ++
               map_of (rev (zip (map (\<lambda>x. ''@'' @ x) (generated_names k (priv_tick (s r)) (length vs)))
                                (map (\<lambda>v. Prim (PString v)) vs)))
          \<and> (\<forall>n. n \<noteq> this \<longrightarrow> bindVars (s' n) = bindVars (s n))
          \<and> (\<forall>n. n \<noteq> r \<longrightarrow> priv_tick (s' n) = priv_tick (s n))
          \<and> only_binds_and_ticks s s'"
  using assms
proof (induction vs arbitrary: st s)
  case Nil
  then show ?case by simp
next
  case (Cons v vs)
  let ?T = "priv_tick (s r)"
  let ?name = "k @ ''_'' @ string_of_nat (Suc ?T)"
  let ?s1 = "s(r := (s r)\<lparr>priv_tick := Suc ?T\<rparr>)"
  let ?s2 = "set_bindVar this (''@'' @ ?name) (Prim (PString v)) ?s1"
  let ?st2 = "if vs \<noteq> [] then (st @ ''@@'' @ ?name) @ '', '' else st @ ''@@'' @ ?name"
  have tick: "getNextGlobalTick this s = Returns (Suc ?T) ?s1"
    using Cons.prems by (simp add: getNextGlobalTick_Returns)
  have step: "handleCommaSeparated_loop this (v # vs) k st s = handleCommaSeparated_loop this vs k ?st2 ?s2"
    using tick by (simp add: Let_def)
  have "frame s ?s2" using frame_tick by (rule frame_then_set_bindVar)
  then have top2: "getTopmostParentQuery this ?s2 = Some r"
    using Cons.prems by (simp add: frame_topmost)
  have T2: "priv_tick (?s2 r) = Suc ?T" using Cons.prems by (rule tick_then_bind)
  from Cons.IH[OF top2, of ?st2] obtain s' where
    ret: "handleCommaSeparated_loop this vs k ?st2 ?s2
            = Returns (?st2 @ join '', '' (map (\<lambda>x. ''@@'' @ x) (generated_names k (Suc ?T) (length vs)))) s'"
    and t': "priv_tick (s' r) = Suc ?T + length vs"
    and b': "bindVars (s' this) = bindVars (?s2 this) ++
               map_of (rev (zip (map (\<lambda>x. ''@'' @ x) (generated_names k (Suc ?T) (length vs)))
                                (map (\<lambda>v. Prim (PString v)) vs)))"
    and o1: "\<forall>n. n \<noteq> this \<longrightarrow> bindVars (s' n) = bindVars (?s2 n)"
    and o2: "\<forall>n. n \<noteq> r \<longrightarrow> priv_tick (s' n) = priv_tick (?s2 n)"
    and o3: "only_binds_and_ticks ?s2 s'"
    unfolding T2 by blast
  have "only_binds_and_ticks s ?s1" by (rule only_binds_and_ticks_tick)
  also have "only_binds_and_ticks ?s1 ?s2" by (rule only_binds_and_ticks_set_bindVar)
  also have "only_binds_and_ticks ?s2 s'" by (rule o3)
  finally have o: "only_binds_and_ticks s s'" .
  have txt_eq: "?st2 @ join '', '' (map (\<lambda>x. ''@@'' @ x) (generated_names k (Suc ?T) (length vs)))
        = st @ join '', '' (map (\<lambda>x. ''@@'' @ x) (generated_names k ?T (length (v # vs))))"
    by (cases vs) (simp_all add: generated_names_Suc join_Cons)
  have binds: "bindVars (s' this) = bindVars (s this) ++
               map_of (rev (zip (map (\<lambda>x. ''@'' @ x) (generated_names k ?T (length (v # vs))))
                                (map (\<lambda>v. Prim (PString v)) (v # vs))))"
    unfolding b' tick_then_bind(2)[OF Cons.prems] map_upd_add_rev
    by (simp add: generated_names_Suc append_at)
  from ret t' o1 o2 o txt_eq binds step show ?case
    by (simp add: tick_then_bind[OF Cons.prems])
qed

section \<open>The declaration clause\<close>

lemma gather_loop_those:
  "gather_loop rec es ts = map_option (\<lambda>tss. ts @ concat tss) (those (map (\<lambda>e. rec (snd e)) es))"
proof (induction es arbitrary: ts)
  case Nil
  then show ?case by simp
next
  case (Cons e es)
  then show ?case
    by (cases "rec (snd e)")
       (simp_all add: concatArrays_def option.map_comp comp_def split: option.splits)
qed

lemma gather_Suc:
  "gatherRelatedCollectionsRecursively (Suc fuel) s this
     = map_option (\<lambda>tss. own_related (options (s this)) @ concat tss)
         (those (map (\<lambda>e. gatherRelatedCollectionsRecursively fuel s (snd e)) (additionalQueries (s this))))"
  by (simp add: gather_loop_those own_related_def Let_def split: option.splits)

lemma getTopmostParentQuery_root: "priv_parent (s this) = None \<Longrightarrow> getTopmostParentQuery this s = Some this"
  by (simp add: getTopmostParentQuery_def)

text \<open>
  Claim C6. \<^verbatim>\<open>buildWithClause\<close> does nothing on a builder that is not a root. On a root it
  gathers the related collections of the whole tree: those of the builder itself first,
  then those of each child, in the order of the children, each gathered in the same
  way. An empty list leaves the store as it is; otherwise the clause is \<^verbatim>\<open>WITH\<close>, one
  generated name for every element of the list (equal collection names are not merged: the
  counter advances by the length of the list), and a blank.
\<close>

theorem buildWithClause_only_root_no_dedup:
  "(\<not> priv_isRootQuery (s this) \<longrightarrow> buildWithClause fuel this s = Returns () s)
   \<and> (priv_isRootQuery (s this) \<and> priv_parent (s this) = None \<longrightarrow>
        (gatherRelatedCollectionsRecursively fuel s this = Some [] \<longrightarrow> buildWithClause fuel this s = Returns () s)
      \<and> (\<forall>targets. gatherRelatedCollectionsRecursively fuel s this = Some targets \<and> targets \<noteq> [] \<longrightarrow>
           (\<exists>s'. buildWithClause fuel this s = Returns () s'
              \<and> withClause (s' this) = ''WITH '' @ join '', '' (map (\<lambda>x. ''@@'' @ x)
                    (generated_names ''target'' (priv_tick (s this)) (length targets))) @ '' ''
              \<and> bindVars (s' this) = bindVars (s this) ++
                    map_of (rev (zip (map (\<lambda>x. ''@'' @ x) (generated_names ''target'' (priv_tick (s this)) (length targets)))
                                     (map (\<lambda>v. Prim (PString v)) targets)))
              \<and> priv_tick (s' this) = priv_tick (s this) + length targets)))
   \<and> gatherRelatedCollectionsRecursively (Suc fuel) s this
        = map_option (\<lambda>tss. own_related (options (s this)) @ concat tss)
            (those (map (\<lambda>e. gatherRelatedCollectionsRecursively fuel s (snd e)) (additionalQueries (s this))))"
proof (intro conjI impI allI)
  show "gatherRelatedCollectionsRecursively (Suc fuel) s this
        = map_option (\<lambda>tss. own_related (options (s this)) @ concat tss)
            (those (map (\<lambda>e. gatherRelatedCollectionsRecursively fuel s (snd e)) (additionalQueries (s this))))"
    by (rule gather_Suc)
next
  assume "\<not> priv_isRootQuery (s this)"
  then show "buildWithClause fuel this s = Returns () s" by (simp add: buildWithClause_def)
next
  assume "priv_isRootQuery (s this) \<and> priv_parent (s this) = None"
    and "gatherRelatedCollectionsRecursively fuel s this = Some []"
  then show "buildWithClause fuel this s = Returns () s" by (simp add: buildWithClause_def)
next
  fix targets
  assume root: "priv_isRootQuery (s this) \<and> priv_parent (s this) = None"
    and g: "gatherRelatedCollectionsRecursively fuel s this = Some targets \<and> targets \<noteq> []"
  from root have top: "getTopmostParentQuery this s = Some this" by (simp add: getTopmostParentQuery_root)
  have safe: "safe_phrase ''target''" by (simp add: is_alpha_def is_ident_char_def)
  from handleCommaSeparated_loop_effect[OF top, of targets "''target''" "[]"] obtain s1 where
    l: "handleCommaSeparated_loop this targets ''target'' [] s
          = Returns ([] @ join '', '' (map (\<lambda>x. ''@@'' @ x) (generated_names ''target'' (priv_tick (s this)) (length targets)))) s1"
    and t: "priv_tick (s1 this) = priv_tick (s this) + length targets"
    and b: "bindVars (s1 this) = bindVars (s this) ++
               map_of (rev (zip (map (\<lambda>x. ''@'' @ x) (generated_names ''target'' (priv_tick (s this)) (length targets)))
                                (map (\<lambda>v. Prim (PString v)) targets)))"
    by blast
  let ?st = "join '', '' (map (\<lambda>x. ''@@'' @ x) (generated_names ''target'' (priv_tick (s this)) (length targets)))"
  from l g safe have h: "handleCommaSeparated this targets ''target'' s = Returns ?st s1"
    by (simp add: handleCommaSeparated_def checkSafe_def)
  have "buildWithClause fuel this s = Returns () (s1(this := (s1 this)\<lparr>withClause := ''WITH '' @ ?st @ '' ''\<rparr>))"
    using root g h by (simp add: buildWithClause_def)
  with t b show "\<exists>s'. buildWithClause fuel this s = Returns () s'
              \<and> withClause (s' this) = ''WITH '' @ join '', '' (map (\<lambda>x. ''@@'' @ x)
                    (generated_names ''target'' (priv_tick (s this)) (length targets))) @ '' ''
              \<and> bindVars (s' this) = bindVars (s this) ++
                    map_of (rev (zip (map (\<lambda>x. ''@'' @ x) (generated_names ''target'' (priv_tick (s this)) (length targets)))
                                     (map (\<lambda>v. Prim (PString v)) targets)))
              \<and> priv_tick (s' this) = priv_tick (s this) + length targets"
    by simp
qed

lemmas example_defs = two_traversals_def parent_and_child_def two_builders_def one_document_def
  fresh_store_def new_ArangoDocumentQueryBuilder_def new_ArangoEdgeQueryBuilder_def
  new_ArangoBaseQueryBuilder_def new_builder_def document_options_def edge_options_def no_options_def

lemmas eval_defs = string_of_nat.simps digit_char_def generated_names_def truthy_collections_def
  concatArrays_def own_related_def is_alpha_def is_ident_char_def is_digit_def

text \<open>
  The theorem at a document builder with two traversals over the same related collection:
  the collection is declared twice.
\<close>

theorem buildWithClause_only_root_no_dedup_witness:
  "priv_isRootQuery (two_traversals 0) \<and> priv_parent (two_traversals 0) = None
   \<and> gatherRelatedCollectionsRecursively 2 two_traversals 0 = Some [''afyon'', ''afyon'']
   \<and> (\<exists>s'. buildWithClause 2 0 two_traversals = Returns () s'
          \<and> withClause (s' 0) = ''WITH @@target_1, @@target_2 ''
          \<and> bindVars (s' 0) ''@target_1'' = Some (Prim (PString ''afyon''))
          \<and> bindVars (s' 0) ''@target_2'' = Some (Prim (PString ''afyon''))
          \<and> priv_tick (s' 0) = 2)
   \<and> \<not> priv_isRootQuery (two_traversals 1)
   \<and> buildWithClause 2 1 two_traversals = Returns () two_traversals"
proof -
  have r: "priv_isRootQuery (two_traversals 0) \<and> priv_parent (two_traversals 0) = None"
    and c: "\<not> priv_isRootQuery (two_traversals 1)"
    and t: "priv_tick (two_traversals 0) = 0" and b: "bindVars (two_traversals 0) = Map.empty"
    by (simp_all add: example_defs)
  have g: "gatherRelatedCollectionsRecursively 2 two_traversals 0 = Some [''afyon'', ''afyon'']"
    by (simp add: numeral_2_eq_2 example_defs eval_defs)
  from buildWithClause_only_root_no_dedup[of two_traversals 0 2]
       buildWithClause_only_root_no_dedup[of two_traversals 1 2] r c g
  obtain s' where "buildWithClause 2 0 two_traversals = Returns () s'"
    and "withClause (s' 0) = ''WITH '' @ join '', '' (map (\<lambda>x. ''@@'' @ x)
                    (generated_names ''target'' (priv_tick (two_traversals 0)) (length [''afyon'', ''afyon'']))) @ '' ''"
    and "bindVars (s' 0) = bindVars (two_traversals 0) ++
                    map_of (rev (zip (map (\<lambda>x. ''@'' @ x) (generated_names ''target'' (priv_tick (two_traversals 0)) (length [''afyon'', ''afyon''])))
                                     (map (\<lambda>v. Prim (PString v)) [''afyon'', ''afyon''])))"
    and "priv_tick (s' 0) = priv_tick (two_traversals 0) + length [''afyon'', ''afyon'']"
    and "buildWithClause 2 1 two_traversals = Returns () two_traversals"
    by auto
  with r c g t b show ?thesis by (simp add: eval_defs)
qed

section \<open>The two shapes of the query\<close>

text \<open>
  Claim C3. When the options of a builder ask for the count and \<^verbatim>\<open>prepareQuery\<close> returns, the
  query text is the declaration clause, the binding \<^verbatim>\<open>total\<close>, the binding \<^verbatim>\<open>docs\<close> and the
  final \<^verbatim>\<open>RETURN\<close>; both bindings start with the same selector and filter text of the
  builder, and only the second goes on with sort, limit, inline queries and the return
  clause.
\<close>

theorem count_and_rows_share_selector_and_filter:
  assumes "prepareQuery fuel this s = Returns (q, bv) s'" and "withCount (options (s this))"
  shows "q = withClause (s' this)
           @ ''LET total = FIRST('' @ (selector (s' this) @ filter' (s' this))
           @ ''COLLECT WITH COUNT INTO length RETURN length) ''
           @ ''LET docs = ('' @ (selector (s' this) @ filter' (s' this))
           @ sort' (s' this) @ limit' (s' this) @ inlineQueries (s' this)
           @ ''RETURN '' @ returnClause (s' this) @ '') ''
           @ ''RETURN { docs, total }''"
proof (cases fuel)
  case 0
  with assms(1) show ?thesis by simp
next
  case (Suc k)
  with assms(1) obtain s1 where "buildEverything (Suc k) (prepareQuery k) this s = Returns () s1"
    and q: "q = query_text (s1 this)" and s': "s' = s1"
    by (auto elim!: bind_ReturnsE)
  from assms(1) have "frame s s'" by (simp add: prepareQuery_frame_bindVars)
  then have "options (s' this) = options (s this)" by (rule frame_fields)
  with assms(2) q s' show ?thesis by (simp add: query_text_def)
qed

text \<open>
  The theorem at the counted document query of the test suite.
\<close>

theorem count_and_rows_share_selector_and_filter_witness:
  "withCount (options (counted_document 0))
   \<and> (\<exists>bv s'. prepareQuery 1 0 counted_document =
         Returns (''LET total = FIRST(FOR doc IN @@collection_1 COLLECT WITH COUNT INTO length RETURN length) ''
                  @ ''LET docs = (FOR doc IN @@collection_1 RETURN doc) RETURN { docs, total }'', bv) s'
        \<and> selector (s' 0) @ filter' (s' 0) = ''FOR doc IN @@collection_1 '')"
proof -
  have w: "withCount (options (counted_document 0))"
    by (simp add: counted_document_def example_defs)
  obtain q bv s' where p: "prepareQuery 1 0 counted_document = Returns (q, bv) s'"
    and f: "withClause (s' 0) = []" "selector (s' 0) = ''FOR doc IN @@collection_1 ''"
      "filter' (s' 0) = []" "sort' (s' 0) = []" "limit' (s' 0) = []" "inlineQueries (s' 0) = []"
      "returnClause (s' 0) = ''doc''"
    by (simp add: counted_document_def example_defs eval_defs buildEverything_def buildSelector_def
          buildSelector_Document_def checkSafe_def getNextGlobalTick_def getTopmostParentQuery_def
          getNextTick_def buildFilter_def buildSort_def buildLimit_def buildWithClause_def
          buildReturnClause_def buildAdditionalQueries_def set_bindVar_def Let_def)
  from count_and_rows_share_selector_and_filter[OF p w] f p w show ?thesis by simp
qed

section \<open>The starting vertex of a traversal\<close>

lemma handleCommaSeparated_returns:
  assumes "getTopmostParentQuery this s = Some r" "safe_phrase k"
  shows "\<exists>st s'. handleCommaSeparated this vs k s = Returns st s' \<and> only_binds_and_ticks s s'"
proof (cases "vs = []")
  case True
  with assms(2) show ?thesis by (simp add: handleCommaSeparated_def checkSafe_def)
next
  case False
  from handleCommaSeparated_loop_effect[OF assms(1), of vs k "[]"] obtain st s'
    where "handleCommaSeparated_loop this vs k [] s = Returns st s'" "only_binds_and_ticks s s'"
    by blast
  with False assms(2) show ?thesis by (simp add: handleCommaSeparated_def checkSafe_def)
qed

lemma buildEdges_returns:
  assumes "getTopmostParentQuery this s = Some r"
  shows "\<exists>s'. buildEdges this s = Returns () s' \<and> frame s s' \<and> rootDoc (s' this) = rootDoc (s this)"
proof -
  let ?vs = "case edgeCollections (options (s this)) of Inr xs \<Rightarrow> xs | Inl x \<Rightarrow> [x]"
  have "safe_phrase ''edge''" by (simp add: is_alpha_def is_ident_char_def)
  with handleCommaSeparated_returns[OF assms, of "''edge''" ?vs] obtain st s1
    where h: "handleCommaSeparated this ?vs ''edge'' s = Returns st s1" and o: "only_binds_and_ticks s s1"
    by blast
  then have b: "buildEdges this s = Returns () (s1(this := (s1 this)\<lparr>edges := st\<rparr>))"
    by (simp add: buildEdges_def)
  then have "frame s (s1(this := (s1 this)\<lparr>edges := st\<rparr>))" by (rule frame_buildEdges)
  moreover from o have "rootDoc (s1 this) = rootDoc (s this)" by (rule only_binds_and_ticks_fields)
  ultimately show ?thesis using b by simp
qed

lemma prepareQuery_Edge_Throws:
  assumes "cls (s this) = ArangoEdgeQueryBuilder" and "buildEdges this s = Returns () s0"
    and "buildStartingVertexId this s0 = Throws e"
  shows "prepareQuery (Suc fuel) this s = Throws e"
  using assms by (simp add: buildEverything_def buildSelector_def buildSelector_Edge_def)

text \<open>
  Claim C4, amended. The starting vertex is resolved in this order. (a) A starting vertex
  in the options that is not the empty string: it throws the invalid-reference error unless
  it has the form collection/key, and is otherwise bound under a fresh name. The empty
  string counts as absent. (b) Otherwise a root-document selector that was set: it is
  inlined. (c) Otherwise, when the topmost parent is another builder, the row alias of
  that builder. (d) Otherwise, for a builder without a parent, the missing-vertex error. A
  builder with a parent whose chain ends has a topmost parent other than itself. For an
  edge builder the two errors are the result of \<^verbatim>\<open>prepareQuery\<close>.
\<close>

theorem buildStartingVertexId_priority:
  "(\<forall>v. truthy_string (startingVertexId (options (s this))) = Some v \<longrightarrow>
        (\<not> document_id v \<longrightarrow> buildStartingVertexId this s = Throws InvalidVertexReference)
      \<and> (document_id v \<longrightarrow> (\<forall>r. getTopmostParentQuery this s = Some r \<longrightarrow>
            (\<exists>s'. buildStartingVertexId this s = Returns () s'
               \<and> startingVertexId' (s' this) = ''@starting_vertex_'' @ string_of_nat (Suc (priv_tick (s r)))
               \<and> bindVars (s' this) (''starting_vertex_'' @ string_of_nat (Suc (priv_tick (s r))))
                    = Some (Prim (PString v))))))
   \<and> (truthy_string (startingVertexId (options (s this))) = None \<longrightarrow>
        (rootDoc (s this) \<noteq> [] \<longrightarrow>
           (\<exists>s'. buildStartingVertexId this s = Returns () s'
              \<and> startingVertexId' (s' this) = rootDoc (s this) @ ''._id''))
      \<and> (rootDoc (s this) = [] \<longrightarrow>
           (\<forall>r. getTopmostParentQuery this s = Some r \<and> r \<noteq> this \<longrightarrow>
              (\<exists>s'. buildStartingVertexId this s = Returns () s'
                 \<and> startingVertexId' (s' this) = doc (s r) @ ''._id''))
         \<and> (priv_parent (s this) = None \<longrightarrow> buildStartingVertexId this s = Throws MissingStartingVertex)))
   \<and> (flags_consistent s \<and> chain_ends s this \<and> priv_parent (s this) \<noteq> None \<longrightarrow>
        (\<exists>r. getTopmostParentQuery this s = Some r \<and> r \<noteq> this \<and> priv_parent (s r) = None))
   \<and> (cls (s this) = ArangoEdgeQueryBuilder \<longrightarrow>
        (\<forall>v r. truthy_string (startingVertexId (options (s this))) = Some v \<and> \<not> document_id v
               \<and> getTopmostParentQuery this s = Some r \<longrightarrow>
               prepareQuery (Suc fuel) this s = Throws InvalidVertexReference)
      \<and> (truthy_string (startingVertexId (options (s this))) = None \<and> rootDoc (s this) = []
           \<and> priv_parent (s this) = None \<longrightarrow>
               prepareQuery (Suc fuel) this s = Throws MissingStartingVertex))"
proof -
  have a: "buildStartingVertexId this s = Throws InvalidVertexReference"
    if "truthy_string (startingVertexId (options (s this))) = Some v" "\<not> document_id v" for v s
    using that by (simp add: buildStartingVertexId_def)
  have b: "\<exists>s'. buildStartingVertexId this s = Returns () s'
               \<and> startingVertexId' (s' this) = ''@starting_vertex_'' @ string_of_nat (Suc (priv_tick (s r)))
               \<and> bindVars (s' this) (''starting_vertex_'' @ string_of_nat (Suc (priv_tick (s r))))
                    = Some (Prim (PString v))"
    if "truthy_string (startingVertexId (options (s this))) = Some v" "document_id v"
      "getTopmostParentQuery this s = Some r" for v r
    using that
    by (simp add: buildStartingVertexId_def getNextGlobalTick_def getNextTick_def set_bindVar_def Let_def)
  have c: "\<exists>s'. buildStartingVertexId this s = Returns () s'
              \<and> startingVertexId' (s' this) = rootDoc (s this) @ ''._id''"
    if "truthy_string (startingVertexId (options (s this))) = None" "rootDoc (s this) \<noteq> []"
    using that by (simp add: buildStartingVertexId_def)
  have d: "\<exists>s'. buildStartingVertexId this s = Returns () s'
                 \<and> startingVertexId' (s' this) = doc (s r) @ ''._id''"
    if "truthy_string (startingVertexId (options (s this))) = None" "rootDoc (s this) = []"
      "getTopmostParentQuery this s = Some r" "r \<noteq> this" for r
    using that by (simp add: buildStartingVertexId_def getDocSelector_def)
  have e: "buildStartingVertexId this s = Throws MissingStartingVertex"
    if "truthy_string (startingVertexId (options (s this))) = None" "rootDoc (s this) = []"
      "priv_parent (s this) = None" for s
    using that by (simp add: buildStartingVertexId_def getTopmostParentQuery_root)
  have f: "\<exists>r. getTopmostParentQuery this s = Some r \<and> r \<noteq> this \<and> priv_parent (s r) = None"
    if "flags_consistent s" "chain_ends s this" "priv_parent (s this) \<noteq> None"
  proof -
    from that(2,1) obtain r where "getTopmostParentQuery this s = Some r" "priv_parent (s r) = None"
      using getTopmostParentQuery_ends by blast
    with that(3) show ?thesis by auto
  qed
  have g: "prepareQuery (Suc fuel) this s = Throws InvalidVertexReference"
    if "cls (s this) = ArangoEdgeQueryBuilder"
      "truthy_string (startingVertexId (options (s this))) = Some v" "\<not> document_id v"
      "getTopmostParentQuery this s = Some r" for v r
  proof -
    from buildEdges_returns[OF that(4)] obtain s0 where s0: "buildEdges this s = Returns () s0"
      and fr: "frame s s0" by blast
    from fr have "options (s0 this) = options (s this)" by (rule frame_fields)
    with that(2,3) have "buildStartingVertexId this s0 = Throws InvalidVertexReference"
      by (intro a) simp_all
    with that(1) s0 show ?thesis by (rule prepareQuery_Edge_Throws)
  qed
  have h: "prepareQuery (Suc fuel) this s = Throws MissingStartingVertex"
    if "cls (s this) = ArangoEdgeQueryBuilder"
      "truthy_string (startingVertexId (options (s this))) = None" "rootDoc (s this) = []"
      "priv_parent (s this) = None"
  proof -
    from that(4) have "getTopmostParentQuery this s = Some this" by (rule getTopmostParentQuery_root)
    from buildEdges_returns[OF this] obtain s0 where s0: "buildEdges this s = Returns () s0"
      and fr: "frame s s0" and rd: "rootDoc (s0 this) = rootDoc (s this)" by blast
    from fr have "options (s0 this) = options (s this)" "priv_parent (s0 this) = priv_parent (s this)"
      by (rule frame_fields)+
    with that(2,3,4) rd have "buildStartingVertexId this s0 = Throws MissingStartingVertex"
      by (intro e) simp_all
    with that(1) s0 show ?thesis by (rule prepareQuery_Edge_Throws)
  qed
  from a b c d e f g h show ?thesis by blast
qed

text \<open>
  Claim C4 as stated fails at the empty string: it is an explicit starting vertex that is
  not of the form collection/key, yet a child given it builds \<^verbatim>\<open>doc._id\<close> from the root's
  alias, and a root given it throws the missing-vertex error, not the invalid-reference
  error.
\<close>

theorem empty_startingVertexId_is_absent:
  "startingVertexId (options (child_with_empty_start 1)) = Some []
   \<and> \<not> document_id []
   \<and> (\<exists>s'. buildStartingVertexId 1 child_with_empty_start = Returns () s'
          \<and> startingVertexId' (s' 1) = ''doc._id'')
   \<and> prepareQuery 1 0 (lone_traversal (Some [])) = Throws MissingStartingVertex"
  by (simp add: child_with_empty_start_def lone_traversal_def example_defs eval_defs document_id_def
        buildStartingVertexId_def truthy_string_def getTopmostParentQuery_def isRootQuery_def
        getDocSelector_def buildEverything_def buildSelector_def buildSelector_Edge_def buildEdges_def
        handleCommaSeparated_def checkSafe_def getNextGlobalTick_def getNextTick_def set_bindVar_def
        Let_def)

text \<open>
  The amended claim at the inputs of the test suite: \<^verbatim>\<open>invalid\<close>, \<^verbatim>\<open>deneme/1-2\<close>, no starting
  vertex on a root, and no starting vertex on a child.
\<close>

theorem buildStartingVertexId_priority_witness:
  "truthy_string (startingVertexId (options (lone_traversal (Some ''invalid'') 0))) = Some ''invalid''
   \<and> \<not> document_id ''invalid''
   \<and> buildStartingVertexId 0 (lone_traversal (Some ''invalid'')) = Throws InvalidVertexReference
   \<and> prepareQuery 1 0 (lone_traversal (Some ''invalid'')) = Throws InvalidVertexReference
   \<and> document_id ''deneme/1-2''
   \<and> (\<exists>s'. buildStartingVertexId 0 (lone_traversal (Some ''deneme/1-2'')) = Returns () s'
          \<and> startingVertexId' (s' 0) = ''@starting_vertex_1''
          \<and> bindVars (s' 0) ''starting_vertex_1'' = Some (Prim (PString ''deneme/1-2'')))
   \<and> truthy_string (startingVertexId (options (lone_traversal None 0))) = None
   \<and> prepareQuery 1 0 (lone_traversal None) = Throws MissingStartingVertex
   \<and> flags_consistent parent_and_child \<and> chain_ends parent_and_child 1
   \<and> (\<exists>s'. buildStartingVertexId 1 parent_and_child = Returns () s'
          \<and> startingVertexId' (s' 1) = ''doc._id'')"
proof -
  let ?bad = "lone_traversal (Some ''invalid'')" and ?good = "lone_traversal (Some ''deneme/1-2'')"
  let ?none = "lone_traversal None"
  have t1: "truthy_string (startingVertexId (options (?bad 0))) = Some ''invalid''"
    and t2: "truthy_string (startingVertexId (options (?good 0))) = Some ''deneme/1-2''"
    and t3: "truthy_string (startingVertexId (options (?none 0))) = None"
    and t4: "truthy_string (startingVertexId (options (parent_and_child 1))) = None"
    by (simp_all add: lone_traversal_def truthy_string_def example_defs)
  have d1: "\<not> document_id ''invalid''" and d2: "document_id ''deneme/1-2''"
    by (simp_all add: document_id_def eval_defs)
  have c: "cls (?bad 0) = ArangoEdgeQueryBuilder" "cls (?none 0) = ArangoEdgeQueryBuilder"
    "priv_parent (?bad 0) = None" "priv_parent (?good 0) = None" "priv_parent (?none 0) = None"
    "rootDoc (?none 0) = []" "priv_tick (?good 0) = 0" "rootDoc (parent_and_child 1) = []"
    "doc (parent_and_child 0) = ''doc''" "priv_parent (parent_and_child 1) = Some 0"
    by (simp_all add: lone_traversal_def example_defs)
  have top: "getTopmostParentQuery 0 ?bad = Some 0" "getTopmostParentQuery 0 ?good = Some 0"
    using c by (simp_all add: getTopmostParentQuery_root)
  have f1: "flags_consistent parent_and_child" by (simp add: flags_consistent_def example_defs)
  have "chain_ends parent_and_child 0" by (rule chain_ends.no_parent) (simp add: example_defs)
  then have c1: "chain_ends parent_and_child 1"
    by (rule chain_ends.has_parent[rotated]) (simp add: example_defs)
  from buildStartingVertexId_priority[of parent_and_child 1 0] f1 c1 c t4
  obtain r where r: "getTopmostParentQuery 1 parent_and_child = Some r" "r \<noteq> 1"
    "priv_parent (parent_and_child r) = None" by auto
  then have "r = 0" by (simp add: getTopmostParentQuery_def isRootQuery_def example_defs)
  with r buildStartingVertexId_priority[of parent_and_child 1 0] t4 c
  have p: "\<exists>s'. buildStartingVertexId 1 parent_and_child = Returns () s'
          \<and> startingVertexId' (s' 1) = ''doc._id''" by auto
  from buildStartingVertexId_priority[of ?bad 0 0] buildStartingVertexId_priority[of ?good 0 0]
       buildStartingVertexId_priority[of ?none 0 0] t1 t2 t3 d1 d2 c top f1 c1 p
  show ?thesis by (simp add: eval_defs)
qed

section \<open>Child assembly\<close>

lemma children_prepared_length: "children_prepared prep this es s rs s' \<Longrightarrow> length rs = length es"
  by (induction rule: children_prepared.induct) simp_all

lemma buildAdditionalQueries_loop_prepares:
  assumes prep: "\<forall>c s q s'. prep c s = Returns q s' \<longrightarrow> frame s s'"
  shows "frame s0 s \<Longrightarrow> buildAdditionalQueries_loop prep this es qs s = Returns x s' \<Longrightarrow>
         \<exists>rs. children_prepared prep this es s rs s'
            \<and> x = qs @ map2 (\<lambda>e r. inline_binding (fst e) (options (s0 (snd e))) (fst r)) es rs"
proof (induction es arbitrary: qs s)
  case Nil
  then show ?case by (auto intro: children_prepared.no_child)
next
  case (Cons e es)
  obtain f c where e: "e = (f, c)" by (cases e)
  from Cons.prems(2) obtain r s1 where p: "prep c s = Returns r s1"
    and rest: "buildAdditionalQueries_loop prep this es
                 (qs @ [inline_binding f (options (s1 c)) (fst r)])
                 (s1(this := (s1 this)\<lparr>bindVars := snd r ++ bindVars (s1 this)\<rparr>)) = Returns x s'"
    unfolding e by (auto simp: Let_def inline_binding_def elim!: bind_ReturnsE)
  obtain q bv where r: "r = (q, bv)" by (cases r)
  let ?s2 = "s1(this := (s1 this)\<lparr>bindVars := snd r ++ bindVars (s1 this)\<rparr>)"
  from p prep have "frame s s1" by blast
  with Cons.prems(1) have f1: "frame s0 s1" by (rule frame_trans)
  then have f2: "frame s0 ?s2" by (rule frame_then_update) (simp_all add: shape_def)
  from f1 have o: "options (s1 c) = options (s0 c)" by (rule frame_fields)
  from Cons.IH[OF f2 rest] obtain rs where cp: "children_prepared prep this es ?s2 rs s'"
    and x: "x = (qs @ [inline_binding f (options (s1 c)) (fst r)])
                @ map2 (\<lambda>e r. inline_binding (fst e) (options (s0 (snd e))) (fst r)) es rs"
    by blast
  have "?s2 = s1(this := (s1 this)\<lparr>bindVars :=
            (\<lambda>k. case bindVars (s1 this) k of Some v \<Rightarrow> Some v | None \<Rightarrow> bv k)\<rparr>)"
    unfolding r by (simp add: map_add_def fun_eq_iff split: option.splits)
  with p[unfolded r] have "children_prepared prep this ((f, c) # es) s ((q, bv) # rs) s'"
    using cp by (rule children_prepared.next_child)
  with x o show ?case unfolding e r by auto
qed


lemmas build_defs = buildEverything_def buildSelector_def buildSelector_Document_def
  buildSelector_Edge_def buildEdges_def buildStartingVertexId_def handleCommaSeparated_def
  checkSafe_def getNextGlobalTick_def getTopmostParentQuery_def isRootQuery_def getNextTick_def
  buildFilter_def buildSort_def buildLimit_def buildWithClause_def buildReturnClause_def
  buildAdditionalQueries_def set_bindVar_def getDocSelector_def truthy_string_def
  string_of_direction_def query_text_def limit_is_one_def Let_def


section \<open>Reading the tick of a generated name\<close>

lemma digit_value_digit_char: "d < 10 \<Longrightarrow> digit_value (digit_char d) = d"
proof -
  assume "d < 10"
  then have "d \<in> {0,1,2,3,4,5,6,7,8,9}" by auto
  then show ?thesis by (auto simp: digit_char_def digit_value_def)
qed

lemma nat_of_digits_snoc: "nat_of_digits (ds @ [c]) = 10 * nat_of_digits ds + digit_value c"
  by (simp add: nat_of_digits_def)

lemma nat_of_digits_string_of_nat: "nat_of_digits (string_of_nat n) = n"
proof (induction n rule: string_of_nat.induct)
  case (1 n)
  show ?case
  proof (cases "n < 10")
    case True
    then show ?thesis
      by (simp add: string_of_nat_small nat_of_digits_def digit_value_digit_char)
  next
    case False
    with 1 show ?thesis
      by (simp add: string_of_nat_large nat_of_digits_snoc digit_value_digit_char)
  qed
qed

lemma underscore_not_digit: "\<not> is_digit CHR ''_''"
  by (simp add: is_digit_def)

lemma takeWhile_stop: "list_all P xs \<Longrightarrow> \<not> P y \<Longrightarrow> takeWhile P (xs @ y # ys) = xs"
  by (induction xs) auto

lemma dropWhile_stop: "list_all P xs \<Longrightarrow> \<not> P y \<Longrightarrow> dropWhile P (xs @ y # ys) = y # ys"
  by (induction xs) auto

lemma takeWhile_all: "list_all P xs \<Longrightarrow> takeWhile P xs = xs"
  by (induction xs) auto

lemma dropWhile_all: "list_all P xs \<Longrightarrow> dropWhile P xs = []"
  by (induction xs) auto

text \<open>
  Every generated name has the form \<^verbatim>\<open>prefix_t\<close> with \<open>t\<close> the tick it was made from, printed in
  decimal; \<open>name_tick\<close> gives \<open>t\<close> back, whatever the prefix.
\<close>

lemma name_tick_generated: "name_tick (p @ ''_'' @ string_of_nat t) = t"
proof -
  have "list_all is_digit (rev (string_of_nat t))"
    using string_of_nat_digits[of t] by (simp add: list_all_iff)
  then have "takeWhile is_digit (rev (string_of_nat t) @ CHR ''_'' # rev p) = rev (string_of_nat t)"
    using underscore_not_digit by (rule takeWhile_stop)
  then show ?thesis by (simp add: name_tick_def nat_of_digits_string_of_nat)
qed

section \<open>Placeholders of concatenated texts\<close>

lemma at_not_word: "\<not> is_word CHR ''@''"
  by (simp add: is_word_def is_alpha_def is_digit_def)

lemma placeholders_other: "c \<noteq> CHR ''@'' \<Longrightarrow> placeholders (c # cs) = placeholders cs"
  by (simp add: placeholders.simps(2))

lemma placeholders_at_free: "at_free x \<Longrightarrow> placeholders (x @ y) = placeholders y"
  by (induction x) (auto simp: at_free_def placeholders_other)

lemma placeholders_at_free_self: "at_free x \<Longrightarrow> placeholders x = []"
  using placeholders_at_free[of x "[]"] by simp

lemma takeWhile_delimited_Nil: "delimited y \<Longrightarrow> takeWhile is_word y = []"
  by (cases y) (auto simp: delimited_def)

lemma dropWhile_delimited_self: "delimited y \<Longrightarrow> dropWhile is_word y = y"
  by (cases y) (auto simp: delimited_def)

lemma takeWhile_delimited:
  "delimited y \<Longrightarrow> takeWhile is_word (ds @ y) = takeWhile is_word ds"
  by (induction ds) (auto simp: takeWhile_delimited_Nil)

lemma dropWhile_delimited:
  "delimited y \<Longrightarrow> dropWhile is_word (ds @ y) = dropWhile is_word ds @ y"
  by (induction ds) (auto simp: dropWhile_delimited_self)

lemma takeWhile_words: "list_all is_word n \<Longrightarrow> takeWhile is_word n = n"
  by (induction n) auto

lemma dropWhile_words: "list_all is_word n \<Longrightarrow> dropWhile is_word n = []"
  by (induction n) auto

lemma placeholders_delimited:
  "delimited y \<Longrightarrow> placeholders (x @ y) = placeholders x @ placeholders y"
proof (induction x rule: placeholders.induct)
  case 1
  then show ?case by simp
next
  case (2 c cs)
  show ?case
  proof (cases "c = CHR ''@''")
    case False
    with 2 show ?thesis by (simp add: placeholders_other)
  next
    case True
    show ?thesis
    proof (cases cs)
      case Nil
      with True 2(4) show ?thesis
        by (cases y) (auto simp: placeholders.simps(2) delimited_def)
    next
      case (Cons d ds)
      show ?thesis
      proof (cases "d = CHR ''@''")
        case d: True
        from 2(2)[OF _ Cons d 2(4)] True
        have "placeholders (dropWhile is_word ds @ y) = placeholders (dropWhile is_word ds) @ placeholders y"
          by simp
        with True Cons d 2(4) show ?thesis
          by (simp add: placeholders.simps(2) takeWhile_delimited dropWhile_delimited)
      next
        case d: False
        from 2(3)[OF _ Cons d 2(4)] True
        have "placeholders (dropWhile is_word cs @ y) = placeholders (dropWhile is_word cs) @ placeholders y"
          by simp
        moreover have "takeWhile is_word (cs @ y) = takeWhile is_word cs"
          "dropWhile is_word (cs @ y) = dropWhile is_word cs @ y"
          using 2(4) by (simp_all add: takeWhile_delimited dropWhile_delimited)
        ultimately show ?thesis using True Cons d
          by (simp add: placeholders.simps(2))
      qed
    qed
  qed
qed

lemma closed_append_delimited: "closed x \<Longrightarrow> x \<noteq> [] \<Longrightarrow> \<exists>u v. x = u @ v \<and> delimited v \<and> v \<noteq> [] \<and> at_free v"
proof -
  assume "closed x" "x \<noteq> []"
  then have "x = butlast x @ [last x]" "delimited [last x]" "at_free [last x]"
    by (auto simp: closed_def delimited_def at_free_def)
  then show ?thesis by blast
qed

text \<open>
  After a closed text the scan starts afresh: the placeholders of \<open>x @ y\<close> are those of
  \<open>x\<close> followed by those of \<open>y\<close>.
\<close>

lemma placeholders_closed:
  assumes "closed x"
  shows "placeholders (x @ y) = placeholders x @ placeholders y"
proof (cases "x = []")
  case True
  then show ?thesis by simp
next
  case False
  with assms obtain u c where x: "x = u @ [c]" and c: "\<not> is_word c" "c \<noteq> CHR ''@''"
    by (metis closed_def append_butlast_last_id)
  have d1: "delimited (c # y)" and d2: "delimited [c]" using c by (simp_all add: delimited_def)
  have "placeholders (x @ y) = placeholders (u @ (c # y))" by (simp add: x)
  also have "\<dots> = placeholders u @ placeholders (c # y)" using d1 by (rule placeholders_delimited)
  also have "placeholders (c # y) = placeholders y" using c by (simp add: placeholders_other)
  finally have a: "placeholders (x @ y) = placeholders u @ placeholders y" .
  have "placeholders x = placeholders u @ placeholders [c]" unfolding x using d2 by (rule placeholders_delimited)
  also have "placeholders [c] = []" using c by (simp add: placeholders_other)
  finally show ?thesis using a by simp
qed

lemma placeholders_name:
  assumes "list_all is_word n" "n \<noteq> []" "delimited y"
  shows "placeholders (CHR ''@'' # n @ y) = n # placeholders y"
proof -
  obtain d ds where n: "n = d # ds" using assms(2) by (cases n) auto
  with assms(1) have d: "d \<noteq> CHR ''@''" using at_not_word by auto
  have "takeWhile is_word (n @ y) = n" "dropWhile is_word (n @ y) = y"
    using assms(1,3) by (simp_all add: takeWhile_delimited dropWhile_delimited takeWhile_words dropWhile_words)
  with n d show ?thesis by (simp add: placeholders.simps(2))
qed

lemma placeholders_collection_name:
  assumes "list_all is_word n" "delimited y"
  shows "placeholders (CHR ''@'' # CHR ''@'' # n @ y) = (CHR ''@'' # n) # placeholders y"
proof -
  have "takeWhile is_word (n @ y) = n" "dropWhile is_word (n @ y) = y"
    using assms by (simp_all add: takeWhile_delimited dropWhile_delimited takeWhile_words dropWhile_words)
  then show ?thesis by (simp add: placeholders.simps(2))
qed

lemma bound_Nil [simp]: "bound D []"
  by (simp add: bound_def)

lemma bound_mono: "D \<subseteq> D' \<Longrightarrow> bound D x \<Longrightarrow> bound D' x"
  by (auto simp: bound_def)

lemma bound_Cons_other: "c \<noteq> CHR ''@'' \<Longrightarrow> bound D (c # y) = bound D y"
  by (simp add: bound_def placeholders_other)

lemma bound_append_at_free: "at_free x \<Longrightarrow> bound D (x @ y) = bound D y"
  by (simp add: bound_def placeholders_at_free)

lemma bound_at_free: "at_free x \<Longrightarrow> bound D x"
  by (simp add: bound_def placeholders_at_free_self)

lemma bound_append_closed: "closed x \<Longrightarrow> bound D (x @ y) = (bound D x \<and> bound D y)"
  by (simp add: bound_def placeholders_closed)

lemma bound_append_delimited: "delimited y \<Longrightarrow> bound D (x @ y) = (bound D x \<and> bound D y)"
  by (simp add: bound_def placeholders_delimited)

lemma bound_name: "word n \<Longrightarrow> delimited y \<Longrightarrow> bound D (CHR ''@'' # n @ y) = (n \<in> D \<and> bound D y)"
  by (simp add: bound_def word_def placeholders_name)

lemma bound_collection_name:
  "word n \<Longrightarrow> delimited y \<Longrightarrow> bound D (CHR ''@'' # CHR ''@'' # n @ y) = (CHR ''@'' # n \<in> D \<and> bound D y)"
  by (simp add: bound_def word_def placeholders_collection_name)

lemma delimited_Nil [simp]: "delimited []"
  by (simp add: delimited_def)

lemma delimited_Cons: "delimited (c # y) \<longleftrightarrow> \<not> is_word c \<and> c \<noteq> CHR ''@''"
  by (simp add: delimited_def)

lemma closed_Nil [simp]: "closed []"
  by (simp add: closed_def)

lemma closed_append: "y \<noteq> [] \<Longrightarrow> closed (x @ y) = closed y"
  by (simp add: closed_def)

lemma closed_Cons: "y \<noteq> [] \<Longrightarrow> closed (c # y) = closed y"
  by (simp add: closed_def)

lemma closed_single: "closed [c] \<longleftrightarrow> \<not> is_word c \<and> c \<noteq> CHR ''@''"
  by (simp add: closed_def)

lemma at_free_Nil [simp]: "at_free []"
  by (simp add: at_free_def)

lemma at_free_Cons: "at_free (c # x) \<longleftrightarrow> c \<noteq> CHR ''@'' \<and> at_free x"
  by (auto simp: at_free_def)

lemma at_free_append: "at_free (x @ y) \<longleftrightarrow> at_free x \<and> at_free y"
  by (auto simp: at_free_def)

lemma word_at_free: "list_all is_word n \<Longrightarrow> at_free n"
  using at_not_word by (auto simp: at_free_def list_all_iff)

lemma space_not_word: "\<not> is_word CHR '' ''" and comma_not_word: "\<not> is_word CHR '',''"
  and paren_not_word: "\<not> is_word CHR '')''" and dot_not_word: "\<not> is_word CHR ''.''"
  by (simp_all add: is_word_def is_alpha_def is_digit_def)

lemmas text_simps = bound_Cons_other bound_append_at_free bound_append_closed bound_name
  bound_collection_name delimited_Cons closed_append closed_Cons closed_single at_free_Cons
  at_free_append space_not_word comma_not_word paren_not_word dot_not_word

lemma selector_Edge_text_bound:
  assumes "word k" "k \<in> D" "at_free d" "at_free dir" "bound D sv" "bound D e"
  shows "bound D (''FOR '' @ d @ '' IN 1..@'' @ k @ '' '' @ dir @ '' '' @ sv @ '' '' @ e @ '' '')"
  using assms by (simp add: text_simps bound_append_delimited)

lemma sort_text_bound:
  assumes "word k1" "k1 \<in> D" "word k2" "k2 \<in> D" "at_free d"
  shows "bound D (''SORT '' @ d @ ''.@'' @ k1 @ '' @'' @ k2 @ '' '')"
    and "closed (''SORT '' @ d @ ''.@'' @ k1 @ '' @'' @ k2 @ '' '')"
  using assms by (simp_all add: text_simps)

section \<open>The effect of the build steps of one builder\<close>

lemma tick_range_0 [simp]: "tick_range T 0 = []"
  by (simp add: tick_range_def)

lemma tick_range_append: "tick_range T (n + m) = tick_range T n @ tick_range (T + n) m"
proof -
  have "[Suc T ..< Suc (T + n) + m] = [Suc T ..< Suc (T + n)] @ [Suc (T + n) ..< Suc (T + n) + m]"
    by (rule upt_add_eq_append) simp
  then show ?thesis by (simp add: tick_range_def add.assoc)
qed

lemma tick_range_1: "tick_range T (Suc 0) = [Suc T]"
  by (simp add: tick_range_def)

lemma tick_range_2: "tick_range T (Suc (Suc 0)) = [Suc T, Suc (Suc T)]"
  by (simp add: tick_range_def upt_rec)

lemma set_tick_range: "set (tick_range T n) = {T <.. T + n}"
  by (auto simp: tick_range_def)

lemma distinct_tick_range: "distinct (tick_range T n)"
  by (simp add: tick_range_def)

lemma names_ok_frame: "frame s s' \<Longrightarrow> names_ok (s' n) = names_ok (s n)"
  by (simp add: names_ok_def aliases_at_free_def filter_inlines_at_free_def frame_fields)

lemma text_ok_tick [simp]: "text_ok (b\<lparr>priv_tick := t\<rparr>) = text_ok b"
  by (simp add: text_ok_def)

lemma built_refl: "built r this s s"
  unfolding built_def by (auto intro: exI[of _ "[]"])

text \<open>
  The effects of consecutive steps compose: the new keys are concatenated, and so are the
  ranges of their ticks.
\<close>

lemma built_trans [trans]:
  assumes "built r this s s1" "built r this s1 s2"
  shows "built r this s s2"
proof -
  from assms obtain ks1 ks2 where
    f1: "frame s s1" and f2: "frame s1 s2"
    and d1: "dom (bindVars (s1 this)) = dom (bindVars (s this)) \<union> set ks1"
    and t1: "priv_tick (s1 r) = priv_tick (s r) + length ks1"
    and n1: "map name_tick ks1 = tick_range (priv_tick (s r)) (length ks1)"
    and d2: "dom (bindVars (s2 this)) = dom (bindVars (s1 this)) \<union> set ks2"
    and t2: "priv_tick (s2 r) = priv_tick (s1 r) + length ks2"
    and n2: "map name_tick ks2 = tick_range (priv_tick (s1 r)) (length ks2)"
    and o1: "\<forall>n. n \<noteq> this \<longrightarrow> (s1 n)\<lparr>priv_tick := priv_tick (s n)\<rparr> = s n"
    and o2: "\<forall>n. n \<noteq> this \<longrightarrow> (s2 n)\<lparr>priv_tick := priv_tick (s1 n)\<rparr> = s1 n"
    and x1: "names_ok (s this) \<longrightarrow> at_free (doc (s r)) \<longrightarrow> text_ok (s this) \<longrightarrow> text_ok (s1 this)"
    and x2: "names_ok (s1 this) \<longrightarrow> at_free (doc (s1 r)) \<longrightarrow> text_ok (s1 this) \<longrightarrow> text_ok (s2 this)"
    unfolding built_def by blast
  from f1 f2 have f: "frame s s2" by (rule frame_trans)
  have d: "dom (bindVars (s2 this)) = dom (bindVars (s this)) \<union> set (ks1 @ ks2)"
    using d1 d2 by auto
  have t: "priv_tick (s2 r) = priv_tick (s r) + length (ks1 @ ks2)" using t1 t2 by simp
  have n: "map name_tick (ks1 @ ks2) = tick_range (priv_tick (s r)) (length (ks1 @ ks2))"
    using n1 n2 t1 by (simp add: tick_range_append)
  have o: "\<forall>n. n \<noteq> this \<longrightarrow> (s2 n)\<lparr>priv_tick := priv_tick (s n)\<rparr> = s n"
  proof (intro allI impI)
    fix n assume "n \<noteq> this"
    with o1 o2 have a: "(s1 n)\<lparr>priv_tick := priv_tick (s n)\<rparr> = s n"
      and b: "(s2 n)\<lparr>priv_tick := priv_tick (s1 n)\<rparr> = s1 n" by simp_all
    from b have "((s2 n)\<lparr>priv_tick := priv_tick (s1 n)\<rparr>)\<lparr>priv_tick := priv_tick (s n)\<rparr>
                 = (s1 n)\<lparr>priv_tick := priv_tick (s n)\<rparr>" by simp
    with a show "(s2 n)\<lparr>priv_tick := priv_tick (s n)\<rparr> = s n" by simp
  qed
  have x: "names_ok (s this) \<longrightarrow> at_free (doc (s r)) \<longrightarrow> text_ok (s this) \<longrightarrow> text_ok (s2 this)"
    using x1 x2 names_ok_frame[OF f1, of this] frame_fields(4)[OF f1, of r] by simp
  from f d t n o x show ?thesis unfolding built_def by blast
qed

lemma built_intro:
  assumes "frame s s'"
    and "dom (bindVars (s' this)) = dom (bindVars (s this)) \<union> set ks"
    and "priv_tick (s' r) = priv_tick (s r) + length ks"
    and "map name_tick ks = tick_range (priv_tick (s r)) (length ks)"
    and "\<And>n. n \<noteq> this \<Longrightarrow> (s' n)\<lparr>priv_tick := priv_tick (s n)\<rparr> = s n"
    and "names_ok (s this) \<Longrightarrow> at_free (doc (s r)) \<Longrightarrow> text_ok (s this) \<Longrightarrow> text_ok (s' this)"
  shows "built r this s s'"
  unfolding built_def using assms by blast

lemma is_digit_word: "is_digit c \<Longrightarrow> is_word c"
  by (simp add: is_word_def)

lemma string_of_nat_words: "list_all is_word (string_of_nat t)"
  using string_of_nat_digits[of t] by (auto simp: list_all_iff is_digit_word)

lemma word_generated: "list_all is_word p \<Longrightarrow> word (p @ ''_'' @ string_of_nat t)"
  using string_of_nat_words[of t] by (simp add: word_def is_word_def)

lemma letters_are_words:
  "list_all is_word ''collection''" "list_all is_word ''path''" "list_all is_word ''filter''"
  "list_all is_word ''sortField''" "list_all is_word ''sortOrder''"
  "list_all is_word ''limitByOffset''" "list_all is_word ''limitByLimit''"
  "list_all is_word ''starting_vertex''" "list_all is_word ''depth''"
  "list_all is_word ''target''" "list_all is_word ''edge''"
  by (simp_all add: is_word_def is_alpha_def is_digit_def)

lemma generated_words:
  "word (''collection_'' @ string_of_nat t)" "word (''path_'' @ string_of_nat t)"
  "word (''filter_'' @ string_of_nat t)" "word (''sortField_'' @ string_of_nat t)"
  "word (''sortOrder_'' @ string_of_nat t)" "word (''limitByOffset_'' @ string_of_nat t)"
  "word (''limitByLimit_'' @ string_of_nat t)" "word (''starting_vertex_'' @ string_of_nat t)"
  "word (''depth_'' @ string_of_nat t)"
  using word_generated[OF letters_are_words(1), of t] word_generated[OF letters_are_words(2), of t]
    word_generated[OF letters_are_words(3), of t] word_generated[OF letters_are_words(4), of t]
    word_generated[OF letters_are_words(5), of t] word_generated[OF letters_are_words(6), of t]
    word_generated[OF letters_are_words(7), of t] word_generated[OF letters_are_words(8), of t]
    word_generated[OF letters_are_words(9), of t]
  by simp_all

lemma generated_ticks:
  "name_tick (''@collection_'' @ string_of_nat t) = t" "name_tick (''path_'' @ string_of_nat t) = t"
  "name_tick (''filter_'' @ string_of_nat t) = t" "name_tick (''sortField_'' @ string_of_nat t) = t"
  "name_tick (''sortOrder_'' @ string_of_nat t) = t" "name_tick (''limitByOffset_'' @ string_of_nat t) = t"
  "name_tick (''limitByLimit_'' @ string_of_nat t) = t" "name_tick (''starting_vertex_'' @ string_of_nat t) = t"
  "name_tick (''depth_'' @ string_of_nat t) = t"
  "name_tick (''@'' @ k @ ''_'' @ string_of_nat t) = t"
  using name_tick_generated[of "''@collection''" t] name_tick_generated[of "''path''" t]
    name_tick_generated[of "''filter''" t] name_tick_generated[of "''sortField''" t]
    name_tick_generated[of "''sortOrder''" t] name_tick_generated[of "''limitByOffset''" t]
    name_tick_generated[of "''limitByLimit''" t] name_tick_generated[of "''starting_vertex''" t]
    name_tick_generated[of "''depth''" t] name_tick_generated[of "''@'' @ k" t]
  by simp_all

lemmas generated_ticks_unfolded = generated_ticks[unfolded append.simps]

lemmas generated_words_unfolded = generated_words[unfolded append.simps]

lemma two_ticks:
  assumes top: "getTopmostParentQuery this s = Some r"
    and t1: "getNextGlobalTick this s = Returns t1 s1"
    and t2: "getNextGlobalTick this s1 = Returns t2 s2"
  shows "t1 = Suc (priv_tick (s r))" "t2 = Suc (Suc (priv_tick (s r)))"
    "s2 = s(r := (s r)\<lparr>priv_tick := Suc (Suc (priv_tick (s r)))\<rparr>)"
proof -
  from t1 top have a: "t1 = Suc (priv_tick (s r))" "s1 = s(r := (s r)\<lparr>priv_tick := Suc (priv_tick (s r))\<rparr>)"
    by (auto simp: getNextGlobalTick_Returns)
  from t1 have "frame s s1" by (rule frame_getNextGlobalTick)
  with top have "getTopmostParentQuery this s1 = Some r" by (simp add: frame_topmost)
  with t2 have b: "t2 = Suc (priv_tick (s1 r))" "s2 = s1(r := (s1 r)\<lparr>priv_tick := Suc (priv_tick (s1 r))\<rparr>)"
    by (auto simp: getNextGlobalTick_Returns)
  from a show "t1 = Suc (priv_tick (s r))" by simp
  from a b show "t2 = Suc (Suc (priv_tick (s r)))" by simp
  from a b show "s2 = s(r := (s r)\<lparr>priv_tick := Suc (Suc (priv_tick (s r)))\<rparr>)" by simp
qed

lemma one_tick:
  assumes top: "getTopmostParentQuery this s = Some r"
    and t1: "getNextGlobalTick this s = Returns t1 s1"
  shows "t1 = Suc (priv_tick (s r))" "s1 = s(r := (s r)\<lparr>priv_tick := Suc (priv_tick (s r))\<rparr>)"
  using assms by (auto simp: getNextGlobalTick_Returns)

lemma built_buildSort:
  assumes top: "getTopmostParentQuery this s = Some r"
    and ret: "buildSort this s = Returns u s'"
  shows "built r this s s'"
proof (cases "sortBy (options (s this))")
  case None
  with ret show ?thesis by (simp add: buildSort_def built_refl)
next
  case (Some sb)
  let ?T = "priv_tick (s r)"
  let ?k1 = "''sortField_'' @ string_of_nat (Suc ?T)" and ?k2 = "''sortOrder_'' @ string_of_nat (Suc (Suc ?T))"
  from Some ret obtain t1 s1 t2 s2 where t1: "getNextGlobalTick this s = Returns t1 s1"
    and t2: "getNextGlobalTick this s1 = Returns t2 s2"
    and s': "s' = set_bindVar this (''sortOrder_'' @ string_of_nat t2)
                   (Prim (PString (case order sb of ASC \<Rightarrow> ''ASC'' | DESC \<Rightarrow> ''DESC'')))
                (set_bindVar this (''sortField_'' @ string_of_nat t1)
                   (PrimArray (map PString (split CHR ''.'' (field sb))))
                (s2(this := (s2 this)\<lparr>sort' := ''SORT '' @ doc (s2 this) @ ''.@'' @ (''sortField_'' @ string_of_nat t1)
                                                    @ '' @'' @ (''sortOrder_'' @ string_of_nat t2) @ '' ''\<rparr>)))"
    by (auto simp: buildSort_def Let_def elim!: bind_ReturnsE)
  note tt = two_ticks[OF top t1 t2]
  have this': "s' this = (s this)\<lparr>priv_tick := priv_tick (s' this),
       sort' := ''SORT '' @ doc (s this) @ ''.@'' @ ?k1 @ '' @'' @ ?k2 @ '' '',
       bindVars := (bindVars (s this))(?k1 \<mapsto> PrimArray (map PString (split CHR ''.'' (field sb))),
                                       ?k2 \<mapsto> Prim (PString (case order sb of ASC \<Rightarrow> ''ASC'' | DESC \<Rightarrow> ''DESC'')))\<rparr>"
    unfolding s' tt by (simp add: set_bindVar_def)
  show ?thesis
  proof (rule built_intro[where ks = "[?k1, ?k2]"])
    show "frame s s'" using ret by (rule frame_buildSort)
    show "dom (bindVars (s' this)) = dom (bindVars (s this)) \<union> set [?k1, ?k2]"
      by (subst this') auto
    show "priv_tick (s' r) = priv_tick (s r) + length [?k1, ?k2]"
      unfolding s' tt by (simp add: set_bindVar_def)
    show "map name_tick [?k1, ?k2] = tick_range (priv_tick (s r)) (length [?k1, ?k2])"
      by (simp add: generated_ticks_unfolded tick_range_2)
    show "(s' n)\<lparr>priv_tick := priv_tick (s n)\<rparr> = s n" if "n \<noteq> this" for n
      using that unfolding s' tt by (simp add: set_bindVar_def)
    show "text_ok (s' this)" if "names_ok (s this)" "at_free (doc (s r))" "text_ok (s this)"
    proof -
      have w: "word ?k1" "word ?k2" by (rule generated_words)+
      have d: "at_free (doc (s this))" using that(1) by (simp add: names_ok_def aliases_at_free_def filter_inlines_at_free_def)
      let ?D = "dom (bindVars (s this))"
      have m: "\<And>x. bound ?D x \<Longrightarrow> bound (insert ?k2 (insert ?k1 ?D)) x"
        by (rule bound_mono[rotated]) auto
      have "bound (insert ?k2 (insert ?k1 ?D)) (''SORT '' @ doc (s this) @ ''.@'' @ ?k1 @ '' @'' @ ?k2 @ '' '')"
        and "closed (''SORT '' @ doc (s this) @ ''.@'' @ ?k1 @ '' @'' @ ?k2 @ '' '')"
        using sort_text_bound[of ?k1 "insert ?k2 (insert ?k1 ?D)" ?k2 "doc (s this)"] w d by simp_all
      with that(3) m show ?thesis
        by (subst this') (simp add: text_ok_def)
    qed
  qed
qed

lemma limit_text_bound:
  assumes "word k1" "k1 \<in> D" "word k2" "k2 \<in> D"
  shows "bound D (''LIMIT @'' @ k1 @ '', @'' @ k2 @ '' '')"
    and "closed (''LIMIT @'' @ k1 @ '', @'' @ k2 @ '' '')"
  using assms by (simp_all add: text_simps)

lemma selector_Document_text_bound:
  assumes "word k" "''@'' @ k \<in> D" "at_free d"
  shows "bound D (''FOR '' @ d @ '' IN @@'' @ k @ '' '')"
    and "closed (''FOR '' @ d @ '' IN @@'' @ k @ '' '')"
  using assms by (simp_all add: text_simps)

lemma closed_selector_Edge:
  "closed (''FOR '' @ d @ '' IN 1..@'' @ k @ '' '' @ dir @ '' '' @ sv @ '' '' @ e @ '' '')"
  by (simp add: text_simps)

lemma built_buildLimit:
  assumes top: "getTopmostParentQuery this s = Some r"
    and ret: "buildLimit this s = Returns u s'"
  shows "built r this s s'"
proof (cases "limitBy (options (s this))")
  case None
  with ret show ?thesis by (simp add: buildLimit_def built_refl)
next
  case (Some lb)
  let ?T = "priv_tick (s r)"
  let ?k1 = "''limitByOffset_'' @ string_of_nat (Suc ?T)" and ?k2 = "''limitByLimit_'' @ string_of_nat (Suc (Suc ?T))"
  from Some ret obtain t1 s1 t2 s2 where t1: "getNextGlobalTick this s = Returns t1 s1"
    and t2: "getNextGlobalTick this s1 = Returns t2 s2"
    and s': "s' = set_bindVar this (''limitByLimit_'' @ string_of_nat t2) (Prim (PNumber (limit lb)))
                (set_bindVar this (''limitByOffset_'' @ string_of_nat t1) (Prim (PNumber (offset lb)))
                (s2(this := (s2 this)\<lparr>limit' := ''LIMIT @'' @ (''limitByOffset_'' @ string_of_nat t1)
                     @ '', @'' @ (''limitByLimit_'' @ string_of_nat t2) @ '' ''\<rparr>)))"
    by (auto simp: buildLimit_def Let_def elim!: bind_ReturnsE)
  note tt = two_ticks[OF top t1 t2]
  have this': "s' this = (s this)\<lparr>priv_tick := priv_tick (s' this),
       limit' := ''LIMIT @'' @ ?k1 @ '', @'' @ ?k2 @ '' '',
       bindVars := (bindVars (s this))(?k1 \<mapsto> Prim (PNumber (offset lb)), ?k2 \<mapsto> Prim (PNumber (limit lb)))\<rparr>"
    unfolding s' tt by (simp add: set_bindVar_def)
  show ?thesis
  proof (rule built_intro[where ks = "[?k1, ?k2]"])
    show "frame s s'" using ret by (rule frame_buildLimit)
    show "dom (bindVars (s' this)) = dom (bindVars (s this)) \<union> set [?k1, ?k2]"
      by (subst this') auto
    show "priv_tick (s' r) = priv_tick (s r) + length [?k1, ?k2]"
      unfolding s' tt by (simp add: set_bindVar_def)
    show "map name_tick [?k1, ?k2] = tick_range (priv_tick (s r)) (length [?k1, ?k2])"
      by (simp add: generated_ticks_unfolded tick_range_2)
    show "(s' n)\<lparr>priv_tick := priv_tick (s n)\<rparr> = s n" if "n \<noteq> this" for n
      using that unfolding s' tt by (simp add: set_bindVar_def)
    show "text_ok (s' this)" if "names_ok (s this)" "at_free (doc (s r))" "text_ok (s this)"
    proof -
      have w: "word ?k1" "word ?k2" by (rule generated_words)+
      let ?D = "dom (bindVars (s this))"
      have m: "\<And>x. bound ?D x \<Longrightarrow> bound (insert ?k2 (insert ?k1 ?D)) x"
        by (rule bound_mono[rotated]) auto
      have "bound (insert ?k2 (insert ?k1 ?D)) (''LIMIT @'' @ ?k1 @ '', @'' @ ?k2 @ '' '')"
        and "closed (''LIMIT @'' @ ?k1 @ '', @'' @ ?k2 @ '' '')"
        using limit_text_bound[of ?k1 "insert ?k2 (insert ?k1 ?D)" ?k2] w by simp_all
      with that(3) m show ?thesis
        by (subst this') (simp add: text_ok_def)
    qed
  qed
qed

lemma built_buildSelector_Document:
  assumes top: "getTopmostParentQuery this s = Some r"
    and ret: "buildSelector_Document this s = Returns u s'"
  shows "built r this s s'"
proof -
  let ?T = "priv_tick (s r)"
  let ?k = "''collection_'' @ string_of_nat (Suc ?T)"
  from ret obtain t s1 where t: "getNextGlobalTick this s = Returns t s1"
    and s': "s' = set_bindVar this (''@'' @ (''collection_'' @ string_of_nat t))
                    (Prim (PString (documentCollection (options (s1 this)))))
                 (s1(this := (s1 this)\<lparr>selector := ''FOR '' @ doc (s1 this) @ '' IN @@''
                       @ (''collection_'' @ string_of_nat t) @ '' ''\<rparr>))"
    by (auto simp: buildSelector_Document_def Let_def checkSafe_Returns elim!: bind_ReturnsE)
  note tt = one_tick[OF top t]
  have this': "s' this = (s this)\<lparr>priv_tick := priv_tick (s' this),
       selector := ''FOR '' @ doc (s this) @ '' IN @@'' @ ?k @ '' '',
       bindVars := (bindVars (s this))(''@'' @ ?k \<mapsto> Prim (PString (documentCollection (options (s this)))))\<rparr>"
    unfolding s' tt by (simp add: set_bindVar_def)
  show ?thesis
  proof (rule built_intro[where ks = "[''@'' @ ?k]"])
    show "frame s s'" using ret by (rule frame_buildSelector_Document)
    show "dom (bindVars (s' this)) = dom (bindVars (s this)) \<union> set [''@'' @ ?k]"
      by (subst this') auto
    show "priv_tick (s' r) = priv_tick (s r) + length [''@'' @ ?k]"
      unfolding s' tt by (simp add: set_bindVar_def)
    show "map name_tick [''@'' @ ?k] = tick_range (priv_tick (s r)) (length [''@'' @ ?k])"
      by (simp add: generated_ticks_unfolded tick_range_1)
    show "(s' n)\<lparr>priv_tick := priv_tick (s n)\<rparr> = s n" if "n \<noteq> this" for n
      using that unfolding s' tt by (simp add: set_bindVar_def)
    show "text_ok (s' this)" if "names_ok (s this)" "at_free (doc (s r))" "text_ok (s this)"
    proof -
      have w: "word ?k" by (rule generated_words)
      have d: "at_free (doc (s this))" using that(1) by (simp add: names_ok_def aliases_at_free_def filter_inlines_at_free_def)
      let ?D = "dom (bindVars (s this))"
      have m: "\<And>x. bound ?D x \<Longrightarrow> bound (insert (''@'' @ ?k) ?D) x"
        by (rule bound_mono[rotated]) auto
      have "bound (insert (''@'' @ ?k) ?D) (''FOR '' @ doc (s this) @ '' IN @@'' @ ?k @ '' '')"
        and "closed (''FOR '' @ doc (s this) @ '' IN @@'' @ ?k @ '' '')"
        using selector_Document_text_bound[of ?k "insert (''@'' @ ?k) ?D" "doc (s this)"] w d by simp_all
      with that(3) m show ?thesis
        by (subst this') (simp add: text_ok_def)
    qed
  qed
qed

lemma bound_name_end: "word n \<Longrightarrow> bound D (CHR ''@'' # n) = (n \<in> D)"
  using bound_name[of n "[]" D] by simp

lemma bound_collection_name_end: "word n \<Longrightarrow> bound D (CHR ''@'' # CHR ''@'' # n) = (CHR ''@'' # n \<in> D)"
  using bound_collection_name[of n "[]" D] by simp

lemma bound_join_collection_names:
  assumes "\<forall>n \<in> set ns. word n"
  shows "bound D (join '', '' (map (\<lambda>x. ''@@'' @ x) ns)) \<longleftrightarrow> (\<forall>n \<in> set ns. ''@'' @ n \<in> D)"
  using assms
proof (induction ns)
  case Nil
  then show ?case by simp
next
  case (Cons n ns)
  then show ?case
    by (cases ns) (simp_all add: join_Cons text_simps bound_collection_name_end)
qed

lemma word_generated_names: "list_all is_word k \<Longrightarrow> \<forall>n \<in> set (generated_names k T m). word n"
  unfolding generated_names_def using word_generated[of k] by auto

lemma name_tick_generated_names:
  "map name_tick (map (\<lambda>x. ''@'' @ x) (generated_names k T m)) = tick_range T m"
proof -
  have "map name_tick (map (\<lambda>x. ''@'' @ x) (generated_names k T m))
        = map (\<lambda>t. name_tick (''@'' @ k @ ''_'' @ string_of_nat t)) [Suc T ..< Suc (T + m)]"
    by (simp add: generated_names_def comp_def)
  also have "\<dots> = map (\<lambda>t. t) [Suc T ..< Suc (T + m)]"
    by (simp only: generated_ticks)
  finally show ?thesis by (simp add: tick_range_def)
qed

lemma dom_map_of_rev_zip:
  "length ks = length vs \<Longrightarrow> dom (map_of (rev (zip ks vs))) = set ks"
proof -
  assume l: "length ks = length vs"
  have "dom (map_of (rev (zip ks vs))) = fst ` set (zip ks vs)"
    by (simp only: dom_map_of_conv_image_fst set_rev)
  also have "\<dots> = set (map fst (zip ks vs))" by simp
  also have "\<dots> = set ks" using l by (simp only: map_fst_zip)
  finally show ?thesis .
qed

lemma text_ok_only_binds:
  assumes "only_binds_and_ticks s s'" "dom (bindVars (s n)) \<subseteq> dom (bindVars (s' n))" "text_ok (s n)"
  shows "text_ok (s' n)"
  using assms(3) bound_mono[OF assms(2)]
  unfolding text_ok_def only_binds_and_ticks_fields[OF assms(1)] by blast

lemma built_handleCommaSeparated_loop:
  assumes top: "getTopmostParentQuery this s = Some r" and k: "list_all is_word k"
    and ret: "handleCommaSeparated_loop this vs k [] s = Returns st s'"
  shows "built r this s s' \<and> bound (dom (bindVars (s' this))) st \<and> only_binds_and_ticks s s'"
proof -
  let ?T = "priv_tick (s r)"
  let ?ns = "generated_names k ?T (length vs)"
  let ?ks = "map (\<lambda>x. ''@'' @ x) ?ns"
  from handleCommaSeparated_loop_effect[OF top, of vs k "[]"] ret
  have st: "st = join '', '' (map (\<lambda>x. ''@@'' @ x) ?ns)"
    and t: "priv_tick (s' r) = ?T + length vs"
    and b: "bindVars (s' this) = bindVars (s this) ++ map_of (rev (zip ?ks (map (\<lambda>v. Prim (PString v)) vs)))"
    and o1: "\<forall>n. n \<noteq> this \<longrightarrow> bindVars (s' n) = bindVars (s n)"
    and o3: "only_binds_and_ticks s s'"
    by auto
  have d: "dom (bindVars (s' this)) = dom (bindVars (s this)) \<union> set ?ks"
    unfolding b by (simp add: dom_map_of_rev_zip Un_commute append_at del: set_map)
  have w: "\<forall>n \<in> set ?ns. word n" using k by (rule word_generated_names)
  have bst: "bound (dom (bindVars (s' this))) st"
    unfolding st bound_join_collection_names[OF w] d by auto
  have "built r this s s'"
  proof (rule built_intro[where ks = ?ks])
    show "frame s s'" using ret by (rule frame_handleCommaSeparated_loop)
    show "dom (bindVars (s' this)) = dom (bindVars (s this)) \<union> set ?ks" by (rule d)
    show "priv_tick (s' r) = priv_tick (s r) + length ?ks" using t by simp
    show "map name_tick ?ks = tick_range (priv_tick (s r)) (length ?ks)"
      using name_tick_generated_names[of k ?T "length vs"] by simp
    show "(s' n)\<lparr>priv_tick := priv_tick (s n)\<rparr> = s n" if "n \<noteq> this" for n
    proof -
      from o3 have "(s' n)\<lparr>bindVars := bindVars (s n), priv_tick := priv_tick (s n)\<rparr> = s n"
        by (simp add: only_binds_and_ticks_def)
      moreover from that o1 have "bindVars (s' n) = bindVars (s n)" by simp
      ultimately show ?thesis by (metis builder.update_convs(3) builder.surjective builder.simps(3))
    qed
    show "text_ok (s' this)" if "text_ok (s this)"
      using o3 _ that by (rule text_ok_only_binds) (simp add: d)
  qed
  with bst o3 show ?thesis by simp
qed

lemma built_update:
  assumes "shape b = shape (s this)" "bindVars b = bindVars (s this)" "priv_tick b = priv_tick (s this)"
    and "names_ok (s this) \<Longrightarrow> at_free (doc (s r)) \<Longrightarrow> text_ok (s this) \<Longrightarrow> text_ok b"
  shows "built r this s (s(this := b))"
proof (rule built_intro[where ks = "[]"])
  show "frame s (s(this := b))" using assms(1-3) by (intro frame_update) simp_all
  show "priv_tick ((s(this := b)) r) = priv_tick (s r) + length []" using assms(3) by simp
qed (use assms in simp_all)

lemma built_handleCommaSeparated:
  assumes top: "getTopmostParentQuery this s = Some r" and k: "list_all is_word k"
    and ret: "handleCommaSeparated this vs k s = Returns st s'"
  shows "built r this s s' \<and> bound (dom (bindVars (s' this))) st \<and> only_binds_and_ticks s s'"
proof (cases "vs = []")
  case True
  with ret have "st = []" "s' = s"
    by (auto simp: handleCommaSeparated_def checkSafe_Returns elim!: bind_ReturnsE)
  then show ?thesis by (simp add: built_refl)
next
  case False
  with ret have "handleCommaSeparated_loop this vs k [] s = Returns st s'"
    by (auto simp: handleCommaSeparated_def checkSafe_Returns elim!: bind_ReturnsE)
  with top k show ?thesis by (rule built_handleCommaSeparated_loop)
qed

lemma built_buildEdges:
  assumes top: "getTopmostParentQuery this s = Some r"
    and ret: "buildEdges this s = Returns u s'"
  shows "built r this s s'"
proof -
  from ret obtain vs st s1 where h: "handleCommaSeparated this vs ''edge'' s = Returns st s1"
    and s': "s' = s1(this := (s1 this)\<lparr>edges := st\<rparr>)"
    by (auto simp: buildEdges_def Let_def elim!: bind_ReturnsE)
  from built_handleCommaSeparated[OF top letters_are_words(11) h]
  have b1: "built r this s s1" and bst: "bound (dom (bindVars (s1 this))) st" by simp_all
  have "built r this s1 s'" unfolding s'
    by (rule built_update) (use bst in \<open>simp_all add: shape_def text_ok_def\<close>)
  with b1 show ?thesis by (rule built_trans)
qed

lemma built_buildStartingVertexId:
  assumes top: "getTopmostParentQuery this s = Some r"
    and ret: "buildStartingVertexId this s = Returns u s'"
  shows "built r this s s'"
proof (cases "truthy_string (startingVertexId (options (s this)))")
  case (Some v)
  let ?T = "priv_tick (s r)"
  let ?k = "''starting_vertex_'' @ string_of_nat (Suc ?T)"
  from Some ret obtain t s1 where t: "getNextGlobalTick this s = Returns t s1"
    and s': "s' = set_bindVar this (''starting_vertex_'' @ string_of_nat t) (Prim (PString v))
                  (s1(this := (s1 this)\<lparr>startingVertexId' := ''@'' @ (''starting_vertex_'' @ string_of_nat t)\<rparr>))"
    by (auto simp: buildStartingVertexId_def Let_def split: if_splits elim!: bind_ReturnsE)
  note tt = one_tick[OF top t]
  have this': "s' this = (s this)\<lparr>priv_tick := priv_tick (s' this),
       startingVertexId' := ''@'' @ ?k, bindVars := (bindVars (s this))(?k \<mapsto> Prim (PString v))\<rparr>"
    unfolding s' tt by (simp add: set_bindVar_def)
  show ?thesis
  proof (rule built_intro[where ks = "[?k]"])
    show "frame s s'" using ret by (rule frame_buildStartingVertexId)
    show "dom (bindVars (s' this)) = dom (bindVars (s this)) \<union> set [?k]"
      by (subst this') auto
    show "priv_tick (s' r) = priv_tick (s r) + length [?k]"
      unfolding s' tt by (simp add: set_bindVar_def)
    show "map name_tick [?k] = tick_range (priv_tick (s r)) (length [?k])"
      by (simp add: generated_ticks_unfolded tick_range_1)
    show "(s' n)\<lparr>priv_tick := priv_tick (s n)\<rparr> = s n" if "n \<noteq> this" for n
      using that unfolding s' tt by (simp add: set_bindVar_def)
    show "text_ok (s' this)" if "names_ok (s this)" "at_free (doc (s r))" "text_ok (s this)"
    proof -
      have w: "word ?k" by (rule generated_words)
      let ?D = "dom (bindVars (s this))"
      have m: "\<And>x. bound ?D x \<Longrightarrow> bound (insert ?k ?D) x"
        by (rule bound_mono[rotated]) auto
      have "bound (insert ?k ?D) (''@'' @ ?k)" using w bound_name_end[of ?k "insert ?k ?D"] by simp
      with that(3) m show ?thesis
        by (subst this') (simp add: text_ok_def)
    qed
  qed
next
  case None
  with ret obtain u1 s1 where
    s1: "(if rootDoc (s this) = [] then
            (case getTopmostParentQuery this s of
               None \<Rightarrow> Diverges
             | Some parent \<Rightarrow>
                 if parent = this then Throws MissingStartingVertex
                 else Returns () (s(this := (s this)\<lparr>rootDoc := getDocSelector parent s\<rparr>)))
          else Returns () s) = Returns u1 s1"
    and s': "s' = s1(this := (s1 this)\<lparr>startingVertexId' := rootDoc (s1 this) @ ''._id''\<rparr>)"
    unfolding buildStartingVertexId_def by (auto elim!: bind_ReturnsE)
  from s1 top have c: "s1 = s \<or> s1 = s(this := (s this)\<lparr>rootDoc := doc (s r)\<rparr>)"
    by (auto simp: getDocSelector_def split: if_splits)
  have b1: "built r this s s1"
  proof -
    have "built r this s (s(this := (s this)\<lparr>rootDoc := doc (s r)\<rparr>))"
      by (rule built_update) (simp_all add: shape_def text_ok_def)
    with c show ?thesis by (auto simp: built_refl)
  qed
  have "built r this s1 s'" unfolding s'
    by (rule built_update) (simp_all add: shape_def text_ok_def bound_at_free at_free_append at_free_Cons)
  with b1 show ?thesis by (rule built_trans)
qed

lemma at_free_direction: "at_free (string_of_direction d)"
  by (simp add: string_of_direction_def at_free_Cons split: option.splits Direction.splits)

lemma built_buildSelector_Edge:
  assumes top: "getTopmostParentQuery this s = Some r"
    and ret: "buildSelector_Edge this s = Returns u s'"
  shows "built r this s s'"
proof -
  from ret obtain s0 s1 t s2 where e: "buildEdges this s = Returns () s0"
    and v: "buildStartingVertexId this s0 = Returns () s1"
    and t: "getNextGlobalTick this s1 = Returns t s2"
    and s': "s' = set_bindVar this (''depth_'' @ string_of_nat t)
                (case depth (options (s2 this)) of None \<Rightarrow> Prim PUndefined | Some d \<Rightarrow> Prim (PNumber d))
                (s2(this := (s2 this)\<lparr>selector :=
                   ''FOR '' @ doc (s2 this) @ '' IN 1..@'' @ (''depth_'' @ string_of_nat t) @ '' ''
                   @ string_of_direction (direction (options (s2 this))) @ '' ''
                   @ startingVertexId' (s2 this) @ '' '' @ edges (s2 this) @ '' ''\<rparr>))"
    by (auto simp: buildSelector_Edge_def Let_def elim!: bind_ReturnsE)
  from top e have b0: "built r this s s0" by (rule built_buildEdges)
  from e have f0: "frame s s0" by (rule frame_buildEdges)
  with top have top0: "getTopmostParentQuery this s0 = Some r" by (simp add: frame_topmost)
  from top0 v have b1: "built r this s0 s1" by (rule built_buildStartingVertexId)
  from v have f1: "frame s0 s1" by (rule frame_buildStartingVertexId)
  with top0 have top1: "getTopmostParentQuery this s1 = Some r" by (simp add: frame_topmost)
  let ?T = "priv_tick (s1 r)"
  let ?k = "''depth_'' @ string_of_nat (Suc ?T)"
  let ?v = "case depth (options (s1 this)) of None \<Rightarrow> Prim PUndefined | Some d \<Rightarrow> Prim (PNumber d)"
  let ?sel = "''FOR '' @ doc (s1 this) @ '' IN 1..@'' @ ?k @ '' ''
                   @ string_of_direction (direction (options (s1 this))) @ '' ''
                   @ startingVertexId' (s1 this) @ '' '' @ edges (s1 this) @ '' ''"
  note tt = one_tick[OF top1 t]
  have this': "s' this = (s1 this)\<lparr>priv_tick := priv_tick (s' this),
       selector := ?sel, bindVars := (bindVars (s1 this))(?k \<mapsto> ?v)\<rparr>"
    unfolding s' tt by (simp add: set_bindVar_def)
  have b2: "built r this s1 s'"
  proof (rule built_intro[where ks = "[?k]"])
    have "frame s1 s2" using t by (rule frame_getNextGlobalTick)
    then show "frame s1 s'" unfolding s'
      by (intro frame_then_set_bindVar frame_then_update) (simp_all add: shape_def)
    show "dom (bindVars (s' this)) = dom (bindVars (s1 this)) \<union> set [?k]"
      by (subst this') auto
    show "priv_tick (s' r) = priv_tick (s1 r) + length [?k]"
      unfolding s' tt by (simp add: set_bindVar_def)
    show "map name_tick [?k] = tick_range (priv_tick (s1 r)) (length [?k])"
      by (simp add: generated_ticks_unfolded tick_range_1)
    show "(s' n)\<lparr>priv_tick := priv_tick (s1 n)\<rparr> = s1 n" if "n \<noteq> this" for n
      using that unfolding s' tt by (simp add: set_bindVar_def)
    show "text_ok (s' this)" if "names_ok (s1 this)" "at_free (doc (s1 r))" "text_ok (s1 this)"
    proof -
      have w: "word ?k" by (rule generated_words)
      have d: "at_free (doc (s1 this))" using that(1) by (simp add: names_ok_def aliases_at_free_def filter_inlines_at_free_def)
      let ?D = "dom (bindVars (s1 this))"
      have m: "\<And>x. bound ?D x \<Longrightarrow> bound (insert ?k ?D) x"
        by (rule bound_mono[rotated]) auto
      from that(3) have "bound ?D (startingVertexId' (s1 this))" "bound ?D (edges (s1 this))"
        by (simp_all add: text_ok_def)
      then have "bound (insert ?k ?D) (startingVertexId' (s1 this))" "bound (insert ?k ?D) (edges (s1 this))"
        using m by blast+
      then have "bound (insert ?k ?D) ?sel"
        using selector_Edge_text_bound[of ?k "insert ?k ?D" "doc (s1 this)"
                "string_of_direction (direction (options (s1 this)))"
                "startingVertexId' (s1 this)" "edges (s1 this)"] w d at_free_direction
        by simp
      moreover have "closed ?sel"
        using closed_selector_Edge[of "doc (s1 this)" ?k "string_of_direction (direction (options (s1 this)))"
                "startingVertexId' (s1 this)" "edges (s1 this)"] by simp
      ultimately show ?thesis using that(3) m
        by (subst this') (simp add: text_ok_def)
    qed
  qed
  from b0 b1 have "built r this s s1" by (rule built_trans)
  then show ?thesis using b2 by (rule built_trans)
qed

lemma built_buildSelector:
  assumes "getTopmostParentQuery this s = Some r" "buildSelector this s = Returns u s'"
  shows "built r this s s'"
  using assms
  by (auto simp: buildSelector_def split: builder_class.splits
        intro: built_buildSelector_Document built_buildSelector_Edge)

lemma built_buildWithClause:
  assumes top: "getTopmostParentQuery this s = Some r"
    and ret: "buildWithClause fuel this s = Returns u s'"
  shows "built r this s s'"
proof (cases "priv_isRootQuery (s this)")
  case False
  with ret show ?thesis by (simp add: buildWithClause_def built_refl)
next
  case True
  show ?thesis
  proof (cases "gatherRelatedCollectionsRecursively fuel s this")
    case None
    with True ret show ?thesis by (simp add: buildWithClause_def)
  next
    case (Some targets)
    show ?thesis
    proof (cases "targets = []")
      case True
      with \<open>priv_isRootQuery (s this)\<close> Some ret show ?thesis by (simp add: buildWithClause_def built_refl)
    next
      case False
      with \<open>priv_isRootQuery (s this)\<close> Some ret obtain st s1
        where h: "handleCommaSeparated this targets ''target'' s = Returns st s1"
          and s': "s' = s1(this := (s1 this)\<lparr>withClause := ''WITH '' @ st @ '' ''\<rparr>)"
        by (auto simp: buildWithClause_def elim!: bind_ReturnsE)
      from built_handleCommaSeparated[OF top letters_are_words(10) h]
      have b1: "built r this s s1" and bst: "bound (dom (bindVars (s1 this))) st" by simp_all
      have "built r this s1 s'" unfolding s'
        by (rule built_update)
           (use bst in \<open>simp_all add: shape_def text_ok_def text_simps bound_append_delimited\<close>)
      with b1 show ?thesis by (rule built_trans)
    qed
  qed
qed

lemma at_free_join: "at_free sep \<Longrightarrow> \<forall>x \<in> set xs. at_free x \<Longrightarrow> at_free (join sep xs)"
  by (induction xs) (auto simp: join_Cons at_free_append)

lemma built_buildReturnClause:
  assumes "buildReturnClause this s = Returns u s'"
  shows "built r this s s'"
proof -
  from assms obtain x where s': "s' = s(this := (s this)\<lparr>returnClause := x\<rparr>)"
    and x: "x = doc (s this) \<or>
            x = ''MERGE('' @ doc (s this) @ '', { '' @ join '', '' (map fst (additionalQueries (s this))) @ '' })''"
    by (auto simp: buildReturnClause_def split: if_splits)
  have "at_free x" if "names_ok (s this)"
  proof -
    from that have d: "at_free (doc (s this))" and n: "\<forall>f \<in> set (map fst (additionalQueries (s this))). at_free f"
      by (simp_all add: names_ok_def aliases_at_free_def filter_inlines_at_free_def)
    have "at_free '', ''" by (simp add: at_free_Cons)
    then have "at_free (join '', '' (map fst (additionalQueries (s this))))" using n by (rule at_free_join)
    with d x show ?thesis by (auto simp: at_free_append at_free_Cons)
  qed
  then show ?thesis unfolding s'
    by (intro built_update) (simp_all add: shape_def text_ok_def)
qed

lemma leaf_text_bound:
  assumes "at_free a" "word k1" "word k2" "at_free opr"
  shows "bound D (a @ ''.@'' @ k1 @ '' '' @ opr @ '' @'' @ k2) = (k1 \<in> D \<and> k2 \<in> D)"
  using assms by (simp add: text_simps bound_name_end)

lemma toString_coalesce_at_free:
  assumes "markers v k = Some x" "at_free (inlined_text v k)" "at_free d"
  shows "at_free (toString (coalesce x (Prim (PString d))))"
  using assms by (simp add: inlined_text_def coalesce_def split: if_splits)

lemma markers_all_or_none: "markers v k \<noteq> None \<Longrightarrow> \<exists>x. markers v k' = Some x"
proof (cases v)
  case (Prim p)
  assume "markers v k \<noteq> None"
  with Prim show ?thesis by (cases p) auto
qed auto

lemma leafFilter_effect:
  assumes top: "getTopmostParentQuery this s = Some r"
    and ret: "leafFilter this key v prevKey s = Returns q s'"
  shows "s' = s(r := (s r)\<lparr>priv_tick := priv_tick (s r) + 2\<rparr>)"
    and "dom (snd q) = {''path_'' @ string_of_nat (Suc (priv_tick (s r))),
                        ''filter_'' @ string_of_nat (Suc (Suc (priv_tick (s r))))}"
    and "at_free (doc (s this)) \<Longrightarrow> at_free (inlined_text v ''@docNameToFilter'')
         \<Longrightarrow> at_free (inlined_text v ''@operator'')
         \<Longrightarrow> bound {''path_'' @ string_of_nat (Suc (priv_tick (s r))),
                    ''filter_'' @ string_of_nat (Suc (Suc (priv_tick (s r))))} (fst q)"
proof -
  let ?k1 = "''path_'' @ string_of_nat (Suc (priv_tick (s r)))"
  let ?k2 = "''filter_'' @ string_of_nat (Suc (Suc (priv_tick (s r))))"
  have "markers v ''@docNameToFilter'' \<noteq> None"
  proof
    assume "markers v ''@docNameToFilter'' = None"
    then have "leafFilter this key v prevKey s \<noteq> Returns q s'"
      by (cases "getNextGlobalTick this s"; simp add: leafFilter_def Let_def)
         (rename_tac t1 s1, case_tac "getNextGlobalTick this s1"; simp)
    with ret show False by simp
  qed
  then obtain docName operator val where
    m: "markers v ''@docNameToFilter'' = Some docName" "markers v ''@operator'' = Some operator"
      "markers v ''@value'' = Some val"
    using markers_all_or_none by blast
  from ret m obtain t1 s1 t2 s2 where
    t1: "getNextGlobalTick this s = Returns t1 s1" and t2: "getNextGlobalTick this s1 = Returns t2 s2"
    and q: "q = (toString (coalesce docName (Prim (PString (doc (s2 this))))) @ ''.@'' @ (''path_'' @ string_of_nat t1)
                      @ '' '' @ toString (coalesce operator (Prim (PString ''==''))) @ '' @'' @ (''filter_'' @ string_of_nat t2),
                 [(''path_'' @ string_of_nat t1) \<mapsto> PrimArray (map PString (split CHR ''.'' (prevKey @ key))),
                  (''filter_'' @ string_of_nat t2) \<mapsto> coalesce val v])"
    and s': "s' = s2"
    by (auto simp: leafFilter_def Let_def elim!: bind_ReturnsE)
  note tt = two_ticks[OF top t1 t2]
  show "s' = s(r := (s r)\<lparr>priv_tick := priv_tick (s r) + 2\<rparr>)" unfolding s' tt by simp
  show "dom (snd q) = {?k1, ?k2}" unfolding q tt by auto
  show "bound {?k1, ?k2} (fst q)"
    if d: "at_free (doc (s this))" and a: "at_free (inlined_text v ''@docNameToFilter'')"
      and opr: "at_free (inlined_text v ''@operator'')"
  proof -
    have dq: "doc (s2 this) = doc (s this)" unfolding tt by simp
    let ?a = "toString (coalesce docName (Prim (PString (doc (s this)))))"
    let ?o = "toString (coalesce operator (Prim (PString ''=='')))"
    from m(1) a d have 1: "at_free ?a" by (rule toString_coalesce_at_free)
    have "at_free ''==''" by (simp add: at_free_Cons)
    with m(2) opr have 2: "at_free ?o" by (rule toString_coalesce_at_free)
    have w: "word ?k1" "word ?k2" by (rule generated_words)+
    have fq: "fst q = ?a @ ''.@'' @ ?k1 @ '' '' @ ?o @ '' @'' @ ?k2"
      unfolding q fst_conv dq tt(1,2) by simp
    show ?thesis unfolding fq leaf_text_bound[OF 1 w 2] by simp
  qed
qed

lemma filter_keys_simps [simp]:
  "filter_keys [] = {}" "filter_keys (q # fs) = dom (snd q) \<union> filter_keys fs"
  "filter_keys (fs @ gs) = filter_keys fs \<union> filter_keys gs"
  by (auto simp: filter_keys_def)

lemma leaf_then_rest:
  assumes top: "getTopmostParentQuery this s = Some r"
    and leaf: "leafFilter this key v prevKey s = Returns q s1"
    and ok: "at_free (doc (s this)) \<Longrightarrow> ok \<Longrightarrow> at_free (inlined_text v ''@docNameToFilter'')
              \<and> at_free (inlined_text v ''@operator'') \<and> ok'"
    and rest: "\<exists>ks. s2 = s1(r := (s1 r)\<lparr>priv_tick := priv_tick (s1 r) + length ks\<rparr>)
                \<and> filter_keys fs = set ks
                \<and> map name_tick ks = tick_range (priv_tick (s1 r)) (length ks)
                \<and> (at_free (doc (s1 this)) \<longrightarrow> ok' \<longrightarrow> (\<forall>q\<in>set fs. bound (set ks) (fst q)))"
  shows "\<exists>ks. s2 = s(r := (s r)\<lparr>priv_tick := priv_tick (s r) + length ks\<rparr>)
            \<and> filter_keys (q # fs) = set ks
            \<and> map name_tick ks = tick_range (priv_tick (s r)) (length ks)
            \<and> (at_free (doc (s this)) \<longrightarrow> ok \<longrightarrow> (\<forall>q\<in>set (q # fs). bound (set ks) (fst q)))"
proof -
  let ?T = "priv_tick (s r)"
  let ?k1 = "''path_'' @ string_of_nat (Suc ?T)" and ?k2 = "''filter_'' @ string_of_nat (Suc (Suc ?T))"
  note l = leafFilter_effect[OF top leaf]
  from rest obtain ks where s2: "s2 = s1(r := (s1 r)\<lparr>priv_tick := priv_tick (s1 r) + length ks\<rparr>)"
    and fk: "filter_keys fs = set ks"
    and nt: "map name_tick ks = tick_range (priv_tick (s1 r)) (length ks)"
    and bd: "at_free (doc (s1 this)) \<longrightarrow> ok' \<longrightarrow> (\<forall>q\<in>set fs. bound (set ks) (fst q))"
    by blast
  have T1: "priv_tick (s1 r) = ?T + 2" and d1: "doc (s1 this) = doc (s this)"
    unfolding l(1) by simp_all
  let ?ks = "?k1 # ?k2 # ks"
  have a: "s2 = s(r := (s r)\<lparr>priv_tick := ?T + length ?ks\<rparr>)"
    unfolding s2 l(1) by simp
  have b: "filter_keys (q # fs) = set ?ks" using l(2) fk by auto
  have c: "map name_tick ?ks = tick_range ?T (length ?ks)"
    using nt tick_range_append[of ?T 2 "length ks"] unfolding T1
    by (simp add: generated_ticks_unfolded tick_range_2 numeral_2_eq_2)
  have d: "\<forall>q\<in>set (q # fs). bound (set ?ks) (fst q)" if "at_free (doc (s this))" ok
  proof -
    from ok[OF that] have i: "at_free (inlined_text v ''@docNameToFilter'')"
      "at_free (inlined_text v ''@operator'')" ok' by simp_all
    from l(3)[OF that(1) i(1,2)] have "bound (set ?ks) (fst q)"
      by (rule bound_mono[rotated]) auto
    moreover from bd that(1) i(3) d1 have "\<forall>q\<in>set fs. bound (set ks) (fst q)" by simp
    then have "\<forall>q\<in>set fs. bound (set ?ks) (fst q)"
      by (auto intro: bound_mono[rotated])
    ultimately show ?thesis by simp
  qed
  from a b c d show ?thesis by blast
qed

lemma inlined_text_primitive:
  "at_free (inlined_text (Prim p) k)" "at_free (inlined_text (PrimArray ps) k)"
  by (cases p; simp add: inlined_text_def nullish_def)+

text \<open>
  \<^verbatim>\<open>extractFilters\<close> changes nothing but the counter of the root; the keys of the entries it
  returns carry the ticks it drew, in order, and each entry refers to these keys only.
\<close>

lemma extractFilters_effect:
  "getTopmostParentQuery this s = Some r \<Longrightarrow> extractFilters this f prevKey s = Returns fs s' \<Longrightarrow>
     \<exists>ks. s' = s(r := (s r)\<lparr>priv_tick := priv_tick (s r) + length ks\<rparr>)
        \<and> filter_keys fs = set ks
        \<and> map name_tick ks = tick_range (priv_tick (s r)) (length ks)
        \<and> (at_free (doc (s this)) \<longrightarrow> inlines_at_free f \<longrightarrow> (\<forall>q\<in>set fs. bound (set ks) (fst q)))"
proof (induction this f prevKey s arbitrary: fs s' rule: extractFilters.induct)
  case (1 this prevKey s)
  then have "fs = []" "s' = s" by simp_all
  then show ?case by (intro exI[of _ "[]"]) simp
next
  case (2 this key p rest prevKey s)
  from 2(3) obtain q s1 fs1 where leaf: "leafFilter this key (Prim p) prevKey s = Returns q s1"
    and rest: "extractFilters this rest prevKey s1 = Returns fs1 s'" and fs: "fs = q # fs1"
    by (auto elim!: bind_ReturnsE)
  from leaf have "frame s s1" by (rule frame_leafFilter)
  with 2(2) have top1: "getTopmostParentQuery this s1 = Some r" by (simp add: frame_topmost)
  show ?case unfolding fs
    by (rule leaf_then_rest[OF 2(2) leaf _ 2(1)[OF top1 rest], where ok = "inlines_at_free ((key, Prim p) # rest)"])
       (simp add: inlined_text_primitive)
next
  case (3 this key ps rest prevKey s)
  from 3(3) obtain q s1 fs1 where leaf: "leafFilter this key (PrimArray ps) prevKey s = Returns q s1"
    and rest: "extractFilters this rest prevKey s1 = Returns fs1 s'" and fs: "fs = q # fs1"
    by (auto elim!: bind_ReturnsE)
  from leaf have "frame s s1" by (rule frame_leafFilter)
  with 3(2) have top1: "getTopmostParentQuery this s1 = Some r" by (simp add: frame_topmost)
  show ?case unfolding fs
    by (rule leaf_then_rest[OF 3(2) leaf _ 3(1)[OF top1 rest], where ok = "inlines_at_free ((key, PrimArray ps) # rest)"])
       (simp add: inlined_text_primitive)
next
  case (4 this key es rest prevKey s)
  show ?case
  proof (cases "isFilterPrimitiveType (Object es) \<or> isFilterProperFilterObject (Object es)")
    case True
    with 4(5) obtain q s1 fs1 where leaf: "leafFilter this key (Object es) prevKey s = Returns q s1"
      and rest: "extractFilters this rest prevKey s1 = Returns fs1 s'" and fs: "fs = q # fs1"
      by (auto simp del: isFilterProperFilterObject.simps elim!: bind_ReturnsE)
    from leaf have "frame s s1" by (rule frame_leafFilter)
    with 4(4) have top1: "getTopmostParentQuery this s1 = Some r" by (simp add: frame_topmost)
    show ?thesis unfolding fs
      by (rule leaf_then_rest[OF 4(4) leaf _ 4(1)[OF True top1 rest], where ok = "inlines_at_free ((key, Object es) # rest)"])
         (use True in \<open>simp del: isFilterProperFilterObject.simps\<close>)
  next
    case False
    let ?p = "prevKey @ key @ ''.''"
    from False 4(5) obtain inner s1 fs1 where inner: "extractFilters this es ?p s = Returns inner s1"
      and rest: "extractFilters this rest ?p s1 = Returns fs1 s'" and fs: "fs = inner @ fs1"
      by (auto simp: Let_def simp del: isFilterProperFilterObject.simps elim!: bind_ReturnsE)
    from inner have "frame s s1" by (rule frame_extractFilters)
    with 4(4) have top1: "getTopmostParentQuery this s1 = Some r" by (simp add: frame_topmost)
    from 4(2)[OF False refl 4(4) inner] obtain ks1 where
      s1: "s1 = s(r := (s r)\<lparr>priv_tick := priv_tick (s r) + length ks1\<rparr>)"
      and k1: "filter_keys inner = set ks1"
      and n1: "map name_tick ks1 = tick_range (priv_tick (s r)) (length ks1)"
      and b1: "at_free (doc (s this)) \<longrightarrow> inlines_at_free es \<longrightarrow> (\<forall>q\<in>set inner. bound (set ks1) (fst q))"
      by blast
    from 4(3)[OF False refl top1 rest] obtain ks2 where
      s2: "s' = s1(r := (s1 r)\<lparr>priv_tick := priv_tick (s1 r) + length ks2\<rparr>)"
      and k2: "filter_keys fs1 = set ks2"
      and n2: "map name_tick ks2 = tick_range (priv_tick (s1 r)) (length ks2)"
      and b2: "at_free (doc (s1 this)) \<longrightarrow> inlines_at_free rest \<longrightarrow> (\<forall>q\<in>set fs1. bound (set ks2) (fst q))"
      by blast
    have T1: "priv_tick (s1 r) = priv_tick (s r) + length ks1" and d1: "doc (s1 this) = doc (s this)"
      unfolding s1 by simp_all
    let ?ks = "ks1 @ ks2"
    have a: "s' = s(r := (s r)\<lparr>priv_tick := priv_tick (s r) + length ?ks\<rparr>)"
      unfolding s2 s1 by (simp add: add.assoc)
    have b: "filter_keys fs = set ?ks" unfolding fs using k1 k2 by simp
    have c: "map name_tick ?ks = tick_range (priv_tick (s r)) (length ?ks)"
      using n1 n2 unfolding T1 by (simp add: tick_range_append)
    have d: "\<forall>q\<in>set fs. bound (set ?ks) (fst q)"
      if "at_free (doc (s this))" "inlines_at_free ((key, Object es) # rest)"
    proof -
      from that(2) False have "inlines_at_free es" "inlines_at_free rest"
        by (simp_all del: isFilterProperFilterObject.simps)
      with b1 b2 that(1) d1 have "\<forall>q\<in>set inner. bound (set ks1) (fst q)" "\<forall>q\<in>set fs1. bound (set ks2) (fst q)"
        by simp_all
      then show ?thesis unfolding fs by (auto intro: bound_mono[rotated])
    qed
    from a b c d show ?thesis by blast
  qed
qed

lemma bound_join_and:
  "\<forall>q \<in> set qs. bound D q \<Longrightarrow> bound D (join '' && '' qs)"
proof (induction qs)
  case Nil
  then show ?case by simp
next
  case (Cons q qs)
  then show ?case
    by (cases qs) (simp_all add: join_Cons bound_append_delimited delimited_Cons space_not_word bound_Cons_other)
qed

lemma filter_text_bound:
  assumes "bound D j"
  shows "bound D (''FILTER '' @ j @ '' '')" and "closed (''FILTER '' @ j @ '' '')"
  using assms by (simp_all add: text_simps bound_append_delimited)

lemma built_buildFilter:
  assumes top: "getTopmostParentQuery this s = Some r"
    and ret: "buildFilter this s = Returns u s'"
  shows "built r this s s'"
proof (cases "filterBy (options (s this))")
  case None
  with ret show ?thesis by (simp add: buildFilter_def built_refl)
next
  case (Some f)
  with ret obtain filters s1 where ex: "extractFilters this f [] s = Returns filters s1"
    and s': "s' = s1(this := (s1 this)\<lparr>filter' := ''FILTER '' @ join '' && '' (map fst filters) @ '' '',
                 bindVars := fold (\<lambda>f bv. snd f ++ bv) filters (bindVars (s1 this))\<rparr>)"
    by (auto simp: buildFilter_def Let_def elim!: bind_ReturnsE)
  from extractFilters_effect[OF top ex] obtain ks where
    s1: "s1 = s(r := (s r)\<lparr>priv_tick := priv_tick (s r) + length ks\<rparr>)"
    and fk: "filter_keys filters = set ks"
    and nt: "map name_tick ks = tick_range (priv_tick (s r)) (length ks)"
    and bd: "at_free (doc (s this)) \<longrightarrow> inlines_at_free f \<longrightarrow> (\<forall>q\<in>set filters. bound (set ks) (fst q))"
    by blast
  let ?fl = "''FILTER '' @ join '' && '' (map fst filters) @ '' ''"
  have this': "s' this = (s this)\<lparr>priv_tick := priv_tick (s' this), filter' := ?fl,
       bindVars := fold (\<lambda>f bv. snd f ++ bv) filters (bindVars (s this))\<rparr>"
    unfolding s' s1 by simp
  have d: "dom (bindVars (s' this)) = dom (bindVars (s this)) \<union> set ks"
    by (subst this') (simp add: dom_fold_merge fk[symmetric] filter_keys_def)
  show ?thesis
  proof (rule built_intro[where ks = ks])
    show "frame s s'" using ret by (rule frame_buildFilter)
    show "dom (bindVars (s' this)) = dom (bindVars (s this)) \<union> set ks" by (rule d)
    show "priv_tick (s' r) = priv_tick (s r) + length ks" unfolding s' s1 by simp
    show "map name_tick ks = tick_range (priv_tick (s r)) (length ks)" by (rule nt)
    show "(s' n)\<lparr>priv_tick := priv_tick (s n)\<rparr> = s n" if "n \<noteq> this" for n
      using that unfolding s' s1 by simp
    show "text_ok (s' this)" if "names_ok (s this)" "at_free (doc (s r))" "text_ok (s this)"
    proof -
      let ?D = "dom (bindVars (s this))"
      from that(1) Some have "at_free (doc (s this))" "inlines_at_free f" by (simp_all add: names_ok_def aliases_at_free_def filter_inlines_at_free_def)
      with bd have "\<forall>q\<in>set filters. bound (set ks) (fst q)" by simp
      then have "\<forall>q\<in>set (map fst filters). bound (?D \<union> set ks) q"
        by (auto intro: bound_mono[rotated])
      then have "bound (?D \<union> set ks) (join '' && '' (map fst filters))" by (rule bound_join_and)
      then have fl: "bound (?D \<union> set ks) ?fl" "closed ?fl" by (rule filter_text_bound)+
      have m: "\<And>x. bound ?D x \<Longrightarrow> bound (?D \<union> set ks) x"
        by (rule bound_mono[rotated]) auto
      have dd: "dom (fold (\<lambda>f bv. snd f ++ bv) filters (bindVars (s this))) = ?D \<union> set ks"
        using d by (subst (asm) this') simp
      from that(3) m fl show ?thesis
        by (subst this') (simp add: text_ok_def dd)
    qed
  qed
qed

text \<open>
  The six steps of \<^verbatim>\<open>buildEverything\<close> that come before the children, composed.
\<close>

lemma built_own_steps:
  assumes top: "getTopmostParentQuery this s = Some r"
    and 1: "buildSelector this s = Returns () s1" and 2: "buildFilter this s1 = Returns () s2"
    and 3: "buildSort this s2 = Returns () s3" and 4: "buildLimit this s3 = Returns () s4"
    and 5: "buildWithClause fuel this s4 = Returns () s5" and 6: "buildReturnClause this s5 = Returns () s6"
  shows "built r this s s6"
proof -
  from 1 have f1: "frame s s1" by (rule frame_buildSelector)
  from 2 have f2: "frame s1 s2" by (rule frame_buildFilter)
  from 3 have f3: "frame s2 s3" by (rule frame_buildSort)
  from 4 have f4: "frame s3 s4" by (rule frame_buildLimit)
  from top f1 have t1: "getTopmostParentQuery this s1 = Some r" by (simp add: frame_topmost)
  with f2 have t2: "getTopmostParentQuery this s2 = Some r" by (simp add: frame_topmost)
  with f3 have t3: "getTopmostParentQuery this s3 = Some r" by (simp add: frame_topmost)
  with f4 have t4: "getTopmostParentQuery this s4 = Some r" by (simp add: frame_topmost)
  from top 1 have "built r this s s1" by (rule built_buildSelector)
  also from t1 2 have "built r this s1 s2" by (rule built_buildFilter)
  also from t2 3 have "built r this s2 s3" by (rule built_buildSort)
  also from t3 4 have "built r this s3 s4" by (rule built_buildLimit)
  also from t4 5 have "built r this s4 s5" by (rule built_buildWithClause)
  also from 6 have "built r this s5 s6" by (rule built_buildReturnClause)
  finally show ?thesis .
qed

section \<open>Names and placeholders over the whole tree\<close>

lemma keys_of_mono: "frame s s' \<Longrightarrow> keys_of N s \<subseteq> keys_of N s'"
  unfolding keys_of_def frame_def by blast

lemma tree_invariant_frame:
  assumes "tree_invariant r N s" "frame s s'" "\<forall>n\<in>N. text_ok (s' n)"
    and "\<forall>k\<in>keys_of N s'. name_tick k \<le> priv_tick (s' r)"
  shows "tree_invariant r N s'"
  using assms unfolding tree_invariant_def
  by (simp add: frame_topmost names_ok_frame frame_fields(3))

lemma allocates_refl: "allocates r N this s s"
  by (simp add: allocates_def bij_betw_def)

lemma allocates_trans [trans]:
  assumes "allocates r N this s s1" "allocates r N this s1 s2"
  shows "allocates r N this s s2"
proof -
  let ?K1 = "keys_of N s1 - keys_of N s" and ?K2 = "keys_of N s2 - keys_of N s1"
  from assms have f1: "frame s s1" and f2: "frame s1 s2"
    and b1: "bij_betw name_tick ?K1 {priv_tick (s r) <.. priv_tick (s1 r)}"
    and b2: "bij_betw name_tick ?K2 {priv_tick (s1 r) <.. priv_tick (s2 r)}"
    and d1: "?K1 \<subseteq> dom (bindVars (s1 this))" and d2: "?K2 \<subseteq> dom (bindVars (s2 this))"
    by (simp_all add: allocates_def)
  from f1 f2 have f: "frame s s2" by (rule frame_trans)
  from f1 have k1: "keys_of N s \<subseteq> keys_of N s1" by (rule keys_of_mono)
  from f2 have k2: "keys_of N s1 \<subseteq> keys_of N s2" by (rule keys_of_mono)
  from f1 have t1: "priv_tick (s r) \<le> priv_tick (s1 r)" by (simp add: frame_def)
  from f2 have t2: "priv_tick (s1 r) \<le> priv_tick (s2 r)" by (simp add: frame_def)
  from f2 have dd: "dom (bindVars (s1 this)) \<subseteq> dom (bindVars (s2 this))" by (simp add: frame_def)
  have K: "keys_of N s2 - keys_of N s = ?K1 \<union> ?K2" using k1 k2 by blast
  have R: "{priv_tick (s r) <.. priv_tick (s2 r)}
           = {priv_tick (s r) <.. priv_tick (s1 r)} \<union> {priv_tick (s1 r) <.. priv_tick (s2 r)}"
    using t1 t2 by auto
  have "{priv_tick (s r) <.. priv_tick (s1 r)} \<inter> {priv_tick (s1 r) <.. priv_tick (s2 r)} = {}"
    by auto
  with b1 b2 have "bij_betw name_tick (?K1 \<union> ?K2)
        ({priv_tick (s r) <.. priv_tick (s1 r)} \<union> {priv_tick (s1 r) <.. priv_tick (s2 r)})"
    by (rule bij_betw_combine)
  then have "bij_betw name_tick (keys_of N s2 - keys_of N s) {priv_tick (s r) <.. priv_tick (s2 r)}"
    unfolding K R .
  moreover have "keys_of N s2 - keys_of N s \<subseteq> dom (bindVars (s2 this))"
    unfolding K using d1 d2 dd by blast
  ultimately show ?thesis using f by (simp add: allocates_def)
qed

lemma allocates_cong:
  assumes "allocates r N c s s1" "frame s s2" "keys_of N s2 = keys_of N s1"
    and "priv_tick (s2 r) = priv_tick (s1 r)" "dom (bindVars (s1 c)) \<subseteq> dom (bindVars (s2 this))"
  shows "allocates r N this s s2"
proof -
  from assms(1) have b: "bij_betw name_tick (keys_of N s1 - keys_of N s) {priv_tick (s r) <.. priv_tick (s1 r)}"
    and d: "keys_of N s1 - keys_of N s \<subseteq> dom (bindVars (s1 c))"
    by (simp_all add: allocates_def)
  from d assms(5) have "keys_of N s1 - keys_of N s \<subseteq> dom (bindVars (s2 this))" by (rule subset_trans)
  with b assms(2) show ?thesis unfolding allocates_def assms(3,4) by simp
qed

lemma built_others:
  assumes "built r this s s'" "n \<noteq> this"
  shows "bindVars (s' n) = bindVars (s n)" and "text_ok (s' n) = text_ok (s n)"
proof -
  from assms have e: "(s' n)\<lparr>priv_tick := priv_tick (s n)\<rparr> = s n" by (simp add: built_def)
  then have "bindVars ((s' n)\<lparr>priv_tick := priv_tick (s n)\<rparr>) = bindVars (s n)" by simp
  then show "bindVars (s' n) = bindVars (s n)" by simp
  from e have "text_ok ((s' n)\<lparr>priv_tick := priv_tick (s n)\<rparr>) = text_ok (s n)" by simp
  then show "text_ok (s' n) = text_ok (s n)" by simp
qed

text \<open>
  From one builder to the whole tree: the keys that the steps of one builder add are new in
  the tree, because every key that is already there carries a tick that the counter has
  passed.
\<close>

lemma built_allocates:
  assumes b: "built r this s s'" and n: "this \<in> N"
    and old: "\<forall>k\<in>keys_of N s. name_tick k \<le> priv_tick (s r)"
  shows "allocates r N this s s'" and "\<forall>k\<in>keys_of N s'. name_tick k \<le> priv_tick (s' r)"
proof -
  from b obtain ks where f: "frame s s'"
    and d: "dom (bindVars (s' this)) = dom (bindVars (s this)) \<union> set ks"
    and t: "priv_tick (s' r) = priv_tick (s r) + length ks"
    and nt: "map name_tick ks = tick_range (priv_tick (s r)) (length ks)"
    unfolding built_def by blast
  have keys: "keys_of N s' = keys_of N s \<union> set ks"
  proof -
    have "dom (bindVars (s' m)) = dom (bindVars (s m))" if "m \<noteq> this" for m
      using built_others(1)[OF b that] by simp
    then have "\<And>m. dom (bindVars (s' m)) = dom (bindVars (s m)) \<union> (if m = this then set ks else {})"
      using d by auto
    then show ?thesis using n unfolding keys_of_def by (auto split: if_splits)
  qed
  have img: "name_tick ` set ks = {priv_tick (s r) <.. priv_tick (s' r)}"
  proof -
    have "name_tick ` set ks = set (map name_tick ks)" by simp
    also have "\<dots> = {priv_tick (s r) <.. priv_tick (s' r)}" unfolding nt set_tick_range t ..
    finally show ?thesis .
  qed
  have "distinct (map name_tick ks)" unfolding nt by (rule distinct_tick_range)
  then have inj: "inj_on name_tick (set ks)" by (simp add: distinct_map)
  have disj: "set ks \<inter> keys_of N s = {}"
  proof -
    have "priv_tick (s r) < name_tick k" if "k \<in> set ks" for k
      using that img by auto
    with old show ?thesis by fastforce
  qed
  then have new: "keys_of N s' - keys_of N s = set ks" unfolding keys by blast
  from inj img have "bij_betw name_tick (set ks) {priv_tick (s r) <.. priv_tick (s' r)}"
    by (simp add: bij_betw_def)
  with f d show "allocates r N this s s'" unfolding allocates_def new by auto
  show "\<forall>k\<in>keys_of N s'. name_tick k \<le> priv_tick (s' r)"
  proof
    fix k assume "k \<in> keys_of N s'"
    then consider "k \<in> keys_of N s" | "k \<in> set ks" unfolding keys by blast
    then show "name_tick k \<le> priv_tick (s' r)"
    proof cases
      case 1
      with old have "name_tick k \<le> priv_tick (s r)" by simp
      then show ?thesis using t by simp
    next
      case 2
      then have "name_tick k \<in> {priv_tick (s r) <.. priv_tick (s' r)}" using img by blast
      then show ?thesis by simp
    qed
  qed
qed

lemma built_tree_invariant:
  assumes b: "built r this s s'" and n: "this \<in> N" and inv: "tree_invariant r N s"
  shows "tree_invariant r N s'"
proof (rule tree_invariant_frame[OF inv])
  from b show "frame s s'" by (simp add: built_def)
  from inv have r: "r \<in> N" and ok: "\<And>m. m \<in> N \<Longrightarrow> names_ok (s m) \<and> text_ok (s m)"
    and old: "\<forall>k\<in>keys_of N s. name_tick k \<le> priv_tick (s r)"
    by (simp_all add: tree_invariant_def)
  from ok[OF r] have "at_free (doc (s r))" by (simp add: names_ok_def aliases_at_free_def filter_inlines_at_free_def)
  with b ok[OF n] have "text_ok (s' this)" by (simp add: built_def)
  then show "\<forall>m\<in>N. text_ok (s' m)"
    using built_others(2)[OF b] ok by metis
  from b n old show "\<forall>k\<in>keys_of N s'. name_tick k \<le> priv_tick (s' r)" by (rule built_allocates)
qed

lemma text_ok_query_text:
  assumes "text_ok b"
  shows "bound (dom (bindVars b)) (query_text b)"
proof -
  let ?D = "dom (bindVars b)"
  from assms have c: "closed (withClause b)" "closed (selector b)" "closed (filter' b)"
    "closed (sort' b)" "closed (limit' b)" "closed (inlineQueries b)"
    and bd: "bound ?D (withClause b)" "bound ?D (selector b)" "bound ?D (filter' b)"
    "bound ?D (sort' b)" "bound ?D (limit' b)" "bound ?D (inlineQueries b)"
    and rc: "at_free (returnClause b)"
    by (simp_all add: text_ok_def)
  have tail: "bound ?D (''RETURN '' @ returnClause b @ y)" if "at_free y" for y
    using rc that by (simp add: bound_at_free at_free_Cons at_free_append)
  show ?thesis
  proof (cases "withCount (options b)")
    case False
    then show ?thesis
      using c bd tail[of "[]"] by (simp add: query_text_def bound_append_closed)
  next
    case True
    have 2: "bound ?D (''LET docs = ('' @ selector b @ filter' b @ sort' b @ limit' b @ inlineQueries b
          @ ''RETURN '' @ returnClause b @ '') '' @ ''RETURN { docs, total }'')"
      using c bd tail[of "'') '' @ ''RETURN { docs, total }''"]
      by (simp add: bound_append_closed bound_Cons_other at_free_Cons)
    have cl: "closed ''COLLECT WITH COUNT INTO length RETURN length) ''"
      by (simp add: closed_def space_not_word)
    have af: "at_free ''COLLECT WITH COUNT INTO length RETURN length) ''"
      by (simp add: at_free_Cons)
    have 1: "bound ?D (''LET total = FIRST('' @ selector b @ filter' b
          @ ''COLLECT WITH COUNT INTO length RETURN length) '' @ y)" if "bound ?D y" for y
      using c bd that bound_append_at_free[OF af, of ?D y]
      by (simp add: bound_append_closed bound_Cons_other)
    from True show ?thesis
      using c(1) bd(1) 1[OF 2] by (simp add: query_text_def bound_append_closed)
  qed
qed

lemma inline_binding_bound:
  assumes "at_free f" "bound D q"
  shows "bound D (inline_binding f copts q)" and "closed (inline_binding f copts q)"
proof -
  have d: "delimited '') ''" by (simp add: delimited_Cons paren_not_word)
  have "bound D (q @ '') '')" using assms(2) by (simp add: bound_append_delimited[OF d] bound_at_free at_free_Cons)
  then have "bound D (''('' @ q @ '') '')" by (simp add: bound_Cons_other)
  then have "bound D ((if withCount copts \<or> limit_is_one copts then ''FIRST'' else []) @ ''('' @ q @ '') '')"
    by (simp add: bound_Cons_other)
  then have "bound D (''LET '' @ f @ '' = '' @ (if withCount copts \<or> limit_is_one copts then ''FIRST'' else []) @ ''('' @ q @ '') '')"
    using assms(1) by (simp only: append.simps bound_Cons_other bound_append_at_free) (simp add: bound_Cons_other bound_append_at_free)
  then show "bound D (inline_binding f copts q)" by (simp add: inline_binding_def)
  show "closed (inline_binding f copts q)"
    by (simp add: inline_binding_def closed_def space_not_word)
qed

lemma closed_append2: "closed x \<Longrightarrow> closed y \<Longrightarrow> closed (x @ y)"
  by (cases "y = []") (simp_all add: closed_append)

lemma concat_bound:
  "\<forall>q\<in>set qs. bound D q \<and> closed q \<Longrightarrow> bound D (concat qs) \<and> closed (concat qs)"
  by (induction qs) (simp_all add: bound_append_closed closed_append2)

lemma text_ok_bindVars:
  assumes "text_ok b" "dom (bindVars b) \<subseteq> dom bv"
  shows "text_ok (b\<lparr>bindVars := bv\<rparr>)"
  using assms(1) bound_mono[OF assms(2)] unfolding text_ok_def by simp

lemma text_ok_inlineQueries:
  assumes "text_ok b" "bound (dom (bindVars b)) x" "closed x"
  shows "text_ok (b\<lparr>inlineQueries := x\<rparr>)"
  using assms unfolding text_ok_def by simp

lemma keys_of_merge:
  assumes "c \<in> N" "this \<in> N"
  shows "keys_of N (s1(this := (s1 this)\<lparr>bindVars := bindVars (s1 c) ++ bindVars (s1 this)\<rparr>)) = keys_of N s1"
    (is "keys_of N ?s2 = _")
proof
  show "keys_of N ?s2 \<subseteq> keys_of N s1"
  proof
    fix k assume "k \<in> keys_of N ?s2"
    then obtain m where m: "m \<in> N" "k \<in> dom (bindVars (?s2 m))" unfolding keys_of_def by blast
    show "k \<in> keys_of N s1"
    proof (cases "m = this")
      case True
      with m have "k \<in> dom (bindVars (s1 c)) \<or> k \<in> dom (bindVars (s1 this))" by auto
      with assms show ?thesis unfolding keys_of_def by blast
    next
      case False
      with m have "k \<in> dom (bindVars (s1 m))" by simp
      with m(1) show ?thesis unfolding keys_of_def by blast
    qed
  qed
  have "frame s1 ?s2" by (rule frame_update) (simp_all add: shape_def)
  then show "keys_of N s1 \<subseteq> keys_of N ?s2" by (rule keys_of_mono)
qed

lemma tree_invariant_merge:
  assumes inv: "tree_invariant r N s1" and c: "c \<in> N" and n: "this \<in> N"
  shows "tree_invariant r N (s1(this := (s1 this)\<lparr>bindVars := bindVars (s1 c) ++ bindVars (s1 this)\<rparr>))"
    (is "tree_invariant r N ?s2")
proof (rule tree_invariant_frame[OF inv])
  show "frame s1 ?s2" by (rule frame_update) (simp_all add: shape_def)
  from inv have ok: "\<And>m. m \<in> N \<Longrightarrow> text_ok (s1 m)"
    and old: "\<forall>k\<in>keys_of N s1. name_tick k \<le> priv_tick (s1 r)"
    by (simp_all add: tree_invariant_def)
  have "text_ok ((s1 this)\<lparr>bindVars := bindVars (s1 c) ++ bindVars (s1 this)\<rparr>)"
    using ok[OF n] by (rule text_ok_bindVars) simp
  with ok show "\<forall>m\<in>N. text_ok (?s2 m)" by simp
  have "priv_tick (?s2 r) = priv_tick (s1 r)" by simp
  with old show "\<forall>k\<in>keys_of N ?s2. name_tick k \<le> priv_tick (?s2 r)"
    unfolding keys_of_merge[OF c n] by simp
qed

lemma allocates_frame: "allocates r N this s s' \<Longrightarrow> frame s s'"
  by (simp add: allocates_def)

text \<open>
  The loop over the children, for any \<open>prep\<close> that keeps the invariant: after each child its
  keys are merged into the parent, so the keys that are new in the tree all are keys of the
  parent, and every inline binding assembled so far refers to keys of the parent.
\<close>

lemma buildAdditionalQueries_loop_invariant:
  assumes prep: "\<forall>c\<in>N. \<forall>s q s'. tree_invariant r N s \<longrightarrow> prep c s = Returns q s' \<longrightarrow>
        tree_invariant r N s' \<and> allocates r N c s s' \<and> snd q = bindVars (s' c)
        \<and> bound (dom (snd q)) (fst q)"
    and n: "this \<in> N"
  shows "tree_invariant r N s \<Longrightarrow> \<forall>e\<in>set es. snd e \<in> N \<and> at_free (fst e) \<Longrightarrow>
     \<forall>q\<in>set qs. bound (dom (bindVars (s this))) q \<and> closed q \<Longrightarrow>
     buildAdditionalQueries_loop prep this es qs s = Returns x s' \<Longrightarrow>
     tree_invariant r N s' \<and> allocates r N this s s'
     \<and> (\<forall>q\<in>set x. bound (dom (bindVars (s' this))) q \<and> closed q)"
proof (induction es arbitrary: qs s)
  case Nil
  then show ?case by (simp add: allocates_refl)
next
  case (Cons e es)
  obtain f c where e: "e = (f, c)" by (cases e)
  from Cons.prems(2) have c: "c \<in> N" and f: "at_free f"
    and es: "\<forall>e\<in>set es. snd e \<in> N \<and> at_free (fst e)" by (simp_all add: e)
  let ?merge = "\<lambda>q s1. s1(this := (s1 this)\<lparr>bindVars := snd q ++ bindVars (s1 this)\<rparr>)"
  from Cons.prems(4) obtain q s1 where p: "prep c s = Returns q s1"
    and rest: "buildAdditionalQueries_loop prep this es
                 (qs @ [inline_binding f (options (s1 c)) (fst q)]) (?merge q s1) = Returns x s'"
    unfolding e by (auto simp: Let_def inline_binding_def elim!: bind_ReturnsE)
  from prep c Cons.prems(1) p have inv1: "tree_invariant r N s1" and al1: "allocates r N c s s1"
    and bv: "snd q = bindVars (s1 c)" and bq: "bound (dom (snd q)) (fst q)"
    by blast+
  let ?s2 = "?merge q s1"
  have s2: "?s2 = s1(this := (s1 this)\<lparr>bindVars := bindVars (s1 c) ++ bindVars (s1 this)\<rparr>)"
    by (simp add: bv)
  from al1 have f1: "frame s s1" by (rule allocates_frame)
  have f12: "frame s1 ?s2" by (rule frame_update) (simp_all add: shape_def)
  from f1 f12 have f2: "frame s ?s2" by (rule frame_trans)
  have inv2: "tree_invariant r N ?s2" unfolding s2 using inv1 c n by (rule tree_invariant_merge)
  have dom2: "dom (bindVars (?s2 this)) = dom (snd q) \<union> dom (bindVars (s1 this))" by auto
  have al2: "allocates r N this s ?s2"
  proof (rule allocates_cong[OF al1 f2])
    show "keys_of N ?s2 = keys_of N s1" unfolding s2 using c n by (rule keys_of_merge)
    show "priv_tick (?s2 r) = priv_tick (s1 r)" by simp
    show "dom (bindVars (s1 c)) \<subseteq> dom (bindVars (?s2 this))" unfolding dom2 bv by simp
  qed
  have qs2: "\<forall>q'\<in>set (qs @ [inline_binding f (options (s1 c)) (fst q)]).
               bound (dom (bindVars (?s2 this))) q' \<and> closed q'"
  proof -
    from f2 have sub: "dom (bindVars (s this)) \<subseteq> dom (bindVars (?s2 this))"
      unfolding frame_def by blast
    have old: "bound (dom (bindVars (?s2 this))) q' \<and> closed q'" if "q' \<in> set qs" for q'
      using Cons.prems(3) that bound_mono[OF sub] by blast
    have "bound (dom (bindVars (?s2 this))) (fst q)"
      using bq unfolding dom2 by (rule bound_mono[rotated]) simp
    with f have "bound (dom (bindVars (?s2 this))) (inline_binding f (options (s1 c)) (fst q))"
      "closed (inline_binding f (options (s1 c)) (fst q))"
      by (rule inline_binding_bound)+
    with old show ?thesis by auto
  qed
  from Cons.IH[OF inv2 es qs2 rest] have inv': "tree_invariant r N s'"
    and al': "allocates r N this ?s2 s'"
    and x: "\<forall>q\<in>set x. bound (dom (bindVars (s' this))) q \<and> closed q"
    by blast+
  from al2 al' have "allocates r N this s s'" by (rule allocates_trans)
  with inv' x show ?case by blast
qed

lemma buildAdditionalQueries_invariant:
  assumes prep: "\<forall>c\<in>N. \<forall>s q s'. tree_invariant r N s \<longrightarrow> prep c s = Returns q s' \<longrightarrow>
        tree_invariant r N s' \<and> allocates r N c s s' \<and> snd q = bindVars (s' c)
        \<and> bound (dom (snd q)) (fst q)"
    and n: "this \<in> N" and inv: "tree_invariant r N s"
    and ret: "buildAdditionalQueries prep this s = Returns u s'"
  shows "tree_invariant r N s' \<and> allocates r N this s s'"
proof (cases "additionalQueries (s this) = []")
  case True
  with ret have "s' = s" by (simp add: buildAdditionalQueries_def)
  with inv show ?thesis by (simp add: allocates_refl)
next
  case False
  with ret obtain qs s1 where
    l: "buildAdditionalQueries_loop prep this (additionalQueries (s this)) [] s = Returns qs s1"
    and s': "s' = s1(this := (s1 this)\<lparr>inlineQueries := concat qs\<rparr>)"
    by (auto simp: buildAdditionalQueries_def elim!: bind_ReturnsE)
  from inv n have es: "\<forall>e\<in>set (additionalQueries (s this)). snd e \<in> N \<and> at_free (fst e)"
    by (simp add: tree_invariant_def names_ok_def aliases_at_free_def filter_inlines_at_free_def)
  have "\<forall>q\<in>set []. bound (dom (bindVars (s this))) q \<and> closed q" by simp
  from buildAdditionalQueries_loop_invariant[OF prep n inv es this l]
  have inv1: "tree_invariant r N s1" and al1: "allocates r N this s s1"
    and qs: "\<forall>q\<in>set qs. bound (dom (bindVars (s1 this))) q \<and> closed q"
    by blast+
  from qs have cq: "bound (dom (bindVars (s1 this))) (concat qs)" "closed (concat qs)"
    using concat_bound by blast+
  have f1: "frame s1 s'" unfolding s' by (rule frame_update) (simp_all add: shape_def)
  have "\<And>m. bindVars (s' m) = bindVars (s1 m)" unfolding s' by simp
  then have keys: "keys_of N s' = keys_of N s1" unfolding keys_of_def by simp
  have inv': "tree_invariant r N s'"
  proof (rule tree_invariant_frame[OF inv1 f1])
    from inv1 have ok: "\<And>m. m \<in> N \<Longrightarrow> text_ok (s1 m)"
      and old: "\<forall>k\<in>keys_of N s1. name_tick k \<le> priv_tick (s1 r)"
      by (simp_all add: tree_invariant_def)
    from ok[OF n] cq have "text_ok ((s1 this)\<lparr>inlineQueries := concat qs\<rparr>)"
      by (rule text_ok_inlineQueries)
    with ok show "\<forall>m\<in>N. text_ok (s' m)" unfolding s' by simp
    have "priv_tick (s' r) = priv_tick (s1 r)" unfolding s' by simp
    with old show "\<forall>k\<in>keys_of N s'. name_tick k \<le> priv_tick (s' r)" unfolding keys by simp
  qed
  have "allocates r N this s s'"
  proof (rule allocates_cong[OF al1])
    from al1 have "frame s s1" by (rule allocates_frame)
    then show "frame s s'" using f1 by (rule frame_trans)
    show "keys_of N s' = keys_of N s1" by (rule keys)
    show "priv_tick (s' r) = priv_tick (s1 r)" unfolding s' by simp
    show "dom (bindVars (s1 this)) \<subseteq> dom (bindVars (s' this))" unfolding s' by simp
  qed
  with inv' show ?thesis ..
qed

text \<open>
  The invariant of \<^verbatim>\<open>prepareQuery\<close>, by induction on the depth of the calls: for any builder
  of a set \<open>N\<close> that is closed under children, the call keeps the invariant of \<open>N\<close>, the new
  keys correspond one-to-one to the ticks it drew and all arrive in the bind variables it
  returns, and its text refers to these bind variables only.
\<close>

lemma prepareQuery_invariant:
  "this \<in> N \<Longrightarrow> tree_invariant r N s \<Longrightarrow> prepareQuery fuel this s = Returns q s' \<Longrightarrow>
     tree_invariant r N s' \<and> allocates r N this s s' \<and> snd q = bindVars (s' this)
     \<and> bound (dom (snd q)) (fst q)"
proof (induction fuel arbitrary: this s q s')
  case 0
  then show ?case by simp
next
  case (Suc fuel)
  from Suc.prems(3) have b: "buildEverything (Suc fuel) (prepareQuery fuel) this s = Returns () s'"
    and q: "q = (query_text (s' this), bindVars (s' this))"
    by (auto elim!: bind_ReturnsE)
  from b obtain s1 s2 s3 s4 s5 s6 where
    1: "buildSelector this s = Returns () s1" and 2: "buildFilter this s1 = Returns () s2" and
    3: "buildSort this s2 = Returns () s3" and 4: "buildLimit this s3 = Returns () s4" and
    5: "buildWithClause (Suc fuel) this s4 = Returns () s5" and 6: "buildReturnClause this s5 = Returns () s6" and
    7: "buildAdditionalQueries (prepareQuery fuel) this s6 = Returns () s'"
    unfolding buildEverything_def by (elim bind_ReturnsE) auto
  from Suc.prems(1,2) have top: "getTopmostParentQuery this s = Some r"
    and old: "\<forall>k\<in>keys_of N s. name_tick k \<le> priv_tick (s r)"
    by (simp_all add: tree_invariant_def)
  from top 1 2 3 4 5 6 have bl: "built r this s s6" by (rule built_own_steps)
  from bl Suc.prems(1,2) have inv6: "tree_invariant r N s6" by (rule built_tree_invariant)
  from bl Suc.prems(1) old have al6: "allocates r N this s s6" by (rule built_allocates)
  have prep: "\<forall>c\<in>N. \<forall>s q s'. tree_invariant r N s \<longrightarrow> prepareQuery fuel c s = Returns q s' \<longrightarrow>
        tree_invariant r N s' \<and> allocates r N c s s' \<and> snd q = bindVars (s' c)
        \<and> bound (dom (snd q)) (fst q)"
    using Suc.IH by blast
  from buildAdditionalQueries_invariant[OF prep Suc.prems(1) inv6 7]
  have inv': "tree_invariant r N s'" and al': "allocates r N this s6 s'" by blast+
  from al6 al' have al: "allocates r N this s s'" by (rule allocates_trans)
  from inv' Suc.prems(1) have "text_ok (s' this)" by (simp add: tree_invariant_def)
  then have "bound (dom (bindVars (s' this))) (query_text (s' this))" by (rule text_ok_query_text)
  with inv' al show ?case unfolding q by simp
qed

lemma never_prepared_text_ok: "never_prepared b \<Longrightarrow> text_ok b"
  by (simp add: never_prepared_def text_ok_def)

text \<open>
  The same induction for the names alone, without any condition on the inlined texts.
\<close>

lemma alloc_invariant_frame:
  assumes "alloc_invariant r N s" "frame s s'"
    and "\<forall>k\<in>keys_of N s'. name_tick k \<le> priv_tick (s' r)"
  shows "alloc_invariant r N s'"
  using assms unfolding alloc_invariant_def
  by (simp add: frame_topmost frame_fields(3))

lemma built_alloc_invariant:
  assumes b: "built r this s s'" and n: "this \<in> N" and inv: "alloc_invariant r N s"
  shows "alloc_invariant r N s'"
proof (rule alloc_invariant_frame[OF inv])
  from b show "frame s s'" by (simp add: built_def)
  from inv have "\<forall>k\<in>keys_of N s. name_tick k \<le> priv_tick (s r)"
    by (simp add: alloc_invariant_def)
  with b n show "\<forall>k\<in>keys_of N s'. name_tick k \<le> priv_tick (s' r)" by (rule built_allocates)
qed

lemma alloc_invariant_merge:
  assumes inv: "alloc_invariant r N s1" and c: "c \<in> N" and n: "this \<in> N"
  shows "alloc_invariant r N (s1(this := (s1 this)\<lparr>bindVars := bindVars (s1 c) ++ bindVars (s1 this)\<rparr>))"
    (is "alloc_invariant r N ?s2")
proof (rule alloc_invariant_frame[OF inv])
  show "frame s1 ?s2" by (rule frame_update) (simp_all add: shape_def)
  from inv have old: "\<forall>k\<in>keys_of N s1. name_tick k \<le> priv_tick (s1 r)"
    by (simp add: alloc_invariant_def)
  have "priv_tick (?s2 r) = priv_tick (s1 r)" by simp
  with old show "\<forall>k\<in>keys_of N ?s2. name_tick k \<le> priv_tick (?s2 r)"
    unfolding keys_of_merge[OF c n] by simp
qed

lemma buildAdditionalQueries_loop_allocates:
  assumes prep: "\<forall>c\<in>N. \<forall>s q s'. alloc_invariant r N s \<longrightarrow> prep c s = Returns q s' \<longrightarrow>
        alloc_invariant r N s' \<and> allocates r N c s s' \<and> snd q = bindVars (s' c)"
    and n: "this \<in> N"
  shows "alloc_invariant r N s \<Longrightarrow> \<forall>e\<in>set es. snd e \<in> N \<Longrightarrow>
     buildAdditionalQueries_loop prep this es qs s = Returns x s' \<Longrightarrow>
     alloc_invariant r N s' \<and> allocates r N this s s'"
proof (induction es arbitrary: qs s)
  case Nil
  then show ?case by (simp add: allocates_refl)
next
  case (Cons e es)
  from Cons.prems(2) have c: "snd e \<in> N" and es: "\<forall>e\<in>set es. snd e \<in> N" by simp_all
  let ?merge = "\<lambda>q s1. s1(this := (s1 this)\<lparr>bindVars := snd q ++ bindVars (s1 this)\<rparr>)"
  from Cons.prems(3) obtain q s1 qs1 where p: "prep (snd e) s = Returns q s1"
    and rest: "buildAdditionalQueries_loop prep this es qs1 (?merge q s1) = Returns x s'"
    by (auto simp: Let_def elim!: bind_ReturnsE)
  from prep c Cons.prems(1) p have inv1: "alloc_invariant r N s1"
    and al1: "allocates r N (snd e) s s1" and bv: "snd q = bindVars (s1 (snd e))"
    by blast+
  let ?s2 = "?merge q s1"
  have s2: "?s2 = s1(this := (s1 this)\<lparr>bindVars := bindVars (s1 (snd e)) ++ bindVars (s1 this)\<rparr>)"
    by (simp add: bv)
  from al1 have f1: "frame s s1" by (rule allocates_frame)
  have f12: "frame s1 ?s2" by (rule frame_update) (simp_all add: shape_def)
  from f1 f12 have f2: "frame s ?s2" by (rule frame_trans)
  have inv2: "alloc_invariant r N ?s2" unfolding s2 using inv1 c n by (rule alloc_invariant_merge)
  have dom2: "dom (bindVars (?s2 this)) = dom (snd q) \<union> dom (bindVars (s1 this))" by auto
  have al2: "allocates r N this s ?s2"
  proof (rule allocates_cong[OF al1 f2])
    show "keys_of N ?s2 = keys_of N s1" unfolding s2 using c n by (rule keys_of_merge)
    show "priv_tick (?s2 r) = priv_tick (s1 r)" by simp
    show "dom (bindVars (s1 (snd e))) \<subseteq> dom (bindVars (?s2 this))" unfolding dom2 bv by simp
  qed
  from Cons.IH[OF inv2 es rest] have inv': "alloc_invariant r N s'"
    and al': "allocates r N this ?s2 s'"
    by blast+
  from al2 al' have "allocates r N this s s'" by (rule allocates_trans)
  with inv' show ?case by blast
qed

lemma buildAdditionalQueries_allocates:
  assumes prep: "\<forall>c\<in>N. \<forall>s q s'. alloc_invariant r N s \<longrightarrow> prep c s = Returns q s' \<longrightarrow>
        alloc_invariant r N s' \<and> allocates r N c s s' \<and> snd q = bindVars (s' c)"
    and n: "this \<in> N" and inv: "alloc_invariant r N s"
    and ret: "buildAdditionalQueries prep this s = Returns u s'"
  shows "alloc_invariant r N s' \<and> allocates r N this s s'"
proof (cases "additionalQueries (s this) = []")
  case True
  with ret have "s' = s" by (simp add: buildAdditionalQueries_def)
  with inv show ?thesis by (simp add: allocates_refl)
next
  case False
  with ret obtain qs s1 where
    l: "buildAdditionalQueries_loop prep this (additionalQueries (s this)) [] s = Returns qs s1"
    and s': "s' = s1(this := (s1 this)\<lparr>inlineQueries := concat qs\<rparr>)"
    by (auto simp: buildAdditionalQueries_def elim!: bind_ReturnsE)
  from inv n have es: "\<forall>e\<in>set (additionalQueries (s this)). snd e \<in> N"
    by (simp add: alloc_invariant_def)
  from buildAdditionalQueries_loop_allocates[OF prep n inv es l]
  have inv1: "alloc_invariant r N s1" and al1: "allocates r N this s s1"
    by blast+
  have f1: "frame s1 s'" unfolding s' by (rule frame_update) (simp_all add: shape_def)
  have "\<And>m. bindVars (s' m) = bindVars (s1 m)" unfolding s' by simp
  then have keys: "keys_of N s' = keys_of N s1" unfolding keys_of_def by simp
  have inv': "alloc_invariant r N s'"
  proof (rule alloc_invariant_frame[OF inv1 f1])
    from inv1 have old: "\<forall>k\<in>keys_of N s1. name_tick k \<le> priv_tick (s1 r)"
      by (simp add: alloc_invariant_def)
    have "priv_tick (s' r) = priv_tick (s1 r)" unfolding s' by simp
    with old show "\<forall>k\<in>keys_of N s'. name_tick k \<le> priv_tick (s' r)" unfolding keys by simp
  qed
  have "allocates r N this s s'"
  proof (rule allocates_cong[OF al1])
    from al1 have "frame s s1" by (rule allocates_frame)
    then show "frame s s'" using f1 by (rule frame_trans)
    show "keys_of N s' = keys_of N s1" by (rule keys)
    show "priv_tick (s' r) = priv_tick (s1 r)" unfolding s' by simp
    show "dom (bindVars (s1 this)) \<subseteq> dom (bindVars (s' this))" unfolding s' by simp
  qed
  with inv' show ?thesis ..
qed

lemma prepareQuery_allocates:
  "this \<in> N \<Longrightarrow> alloc_invariant r N s \<Longrightarrow> prepareQuery fuel this s = Returns q s' \<Longrightarrow>
     alloc_invariant r N s' \<and> allocates r N this s s' \<and> snd q = bindVars (s' this)"
proof (induction fuel arbitrary: this s q s')
  case 0
  then show ?case by simp
next
  case (Suc fuel)
  from Suc.prems(3) have b: "buildEverything (Suc fuel) (prepareQuery fuel) this s = Returns () s'"
    and q: "q = (query_text (s' this), bindVars (s' this))"
    by (auto elim!: bind_ReturnsE)
  from b obtain s1 s2 s3 s4 s5 s6 where
    1: "buildSelector this s = Returns () s1" and 2: "buildFilter this s1 = Returns () s2" and
    3: "buildSort this s2 = Returns () s3" and 4: "buildLimit this s3 = Returns () s4" and
    5: "buildWithClause (Suc fuel) this s4 = Returns () s5" and 6: "buildReturnClause this s5 = Returns () s6" and
    7: "buildAdditionalQueries (prepareQuery fuel) this s6 = Returns () s'"
    unfolding buildEverything_def by (elim bind_ReturnsE) auto
  from Suc.prems(1,2) have top: "getTopmostParentQuery this s = Some r"
    and old: "\<forall>k\<in>keys_of N s. name_tick k \<le> priv_tick (s r)"
    by (simp_all add: alloc_invariant_def)
  from top 1 2 3 4 5 6 have bl: "built r this s s6" by (rule built_own_steps)
  from bl Suc.prems(1,2) have inv6: "alloc_invariant r N s6" by (rule built_alloc_invariant)
  from bl Suc.prems(1) old have al6: "allocates r N this s s6" by (rule built_allocates)
  have prep: "\<forall>c\<in>N. \<forall>s q s'. alloc_invariant r N s \<longrightarrow> prepareQuery fuel c s = Returns q s' \<longrightarrow>
        alloc_invariant r N s' \<and> allocates r N c s s' \<and> snd q = bindVars (s' c)"
    using Suc.IH by blast
  from buildAdditionalQueries_allocates[OF prep Suc.prems(1) inv6 7]
  have inv': "alloc_invariant r N s'" and al': "allocates r N this s6 s'" by blast+
  from al6 al' have al: "allocates r N this s s'" by (rule allocates_trans)
  with inv' show ?case unfolding q by simp
qed

text \<open>
  A valid tree satisfies the invariants, and none of its builders has a key yet.
\<close>

lemma valid_tree_alloc_invariant:
  assumes "valid_tree s r"
  shows "alloc_invariant r (tree_nodes s r) s" and "keys_of (tree_nodes s r) s = {}"
proof -
  from assms have ok: "\<And>n. n \<in> tree_nodes s r \<Longrightarrow>
      getTopmostParentQuery n s = Some r \<and> never_prepared (s n)"
    by (simp add: valid_tree_def)
  then show k: "keys_of (tree_nodes s r) s = {}"
    by (auto simp: keys_of_def never_prepared_def)
  show "alloc_invariant r (tree_nodes s r) s"
    unfolding alloc_invariant_def k
    using ok by (auto intro: tree_nodes.root tree_nodes.child)
qed

lemma valid_tree_invariant:
  assumes "valid_tree s r" "tree_inlines_at_free s r"
  shows "tree_invariant r (tree_nodes s r) s"
proof -
  from assms have ok: "\<And>n. n \<in> tree_nodes s r \<Longrightarrow>
      getTopmostParentQuery n s = Some r \<and> never_prepared (s n) \<and> names_ok (s n)"
    by (simp add: valid_tree_def tree_inlines_at_free_def names_ok_def)
  from assms(1) have k: "keys_of (tree_nodes s r) s = {}" by (rule valid_tree_alloc_invariant)
  show ?thesis
    unfolding tree_invariant_def k
    using ok by (auto intro: tree_nodes.root tree_nodes.child never_prepared_text_ok)
qed


lemma filtered_with_related_nodes: "n \<in> tree_nodes filtered_with_related 0 \<Longrightarrow> n = 0 \<or> n = 1"
  by (induction rule: tree_nodes.induct)
     (auto simp: filtered_with_related_def example_defs split: if_splits)

lemma filtered_with_related_valid:
  "valid_tree filtered_with_related 0 \<and> tree_inlines_at_free filtered_with_related 0"
proof -
  have 0: "getTopmostParentQuery 0 filtered_with_related = Some 0
           \<and> never_prepared (filtered_with_related 0) \<and> names_ok (filtered_with_related 0)"
    by (simp add: filtered_with_related_def example_defs getTopmostParentQuery_def isRootQuery_def
          never_prepared_def names_ok_def aliases_at_free_def filter_inlines_at_free_def
          at_free_def inlined_text_def
          coalesce_def nullish_def checkPrimitive_def hasOwnProperty_def property_def)
  have 1: "getTopmostParentQuery 1 filtered_with_related = Some 0
           \<and> never_prepared (filtered_with_related 1) \<and> names_ok (filtered_with_related 1)"
    by (simp add: filtered_with_related_def example_defs getTopmostParentQuery_def isRootQuery_def
          never_prepared_def names_ok_def aliases_at_free_def filter_inlines_at_free_def at_free_def)
  have "priv_parent (filtered_with_related 0) = None"
    by (simp add: filtered_with_related_def example_defs)
  with 0 1 filtered_with_related_nodes show ?thesis
    unfolding valid_tree_def tree_inlines_at_free_def names_ok_def by blast
qed

lemma filtered_with_related_prepared:
  "\<exists>bv s'. prepareQuery 2 0 filtered_with_related =
      Returns (''WITH @@target_8 FOR doc IN @@collection_1 FILTER doc.@path_2 != @filter_3 ''
               @ ''SORT doc.@sortField_4 @sortOrder_5 LIMIT @limitByOffset_6, @limitByLimit_7 ''
               @ ''LET related = (FOR vertex IN 1..@depth_10 ANY doc._id @@edge_9 RETURN vertex) ''
               @ ''RETURN MERGE(doc, { related })'', bv) s'
      \<and> priv_tick (filtered_with_related 0) = 0 \<and> priv_tick (s' 0) = 10"
  by (simp add: numeral_2_eq_2 filtered_with_related_def example_defs eval_defs build_defs
        leafFilter_def coalesce_def nullish_def checkPrimitive_def hasOwnProperty_def property_def)

lemma alias_override_with_at_nodes: "n \<in> tree_nodes alias_override_with_at 0 \<Longrightarrow> n = 0"
  by (induction rule: tree_nodes.induct)
     (auto simp: alias_override_with_at_def example_defs split: if_splits)

lemma alias_override_with_at_valid: "valid_tree alias_override_with_at 0"
proof -
  have "getTopmostParentQuery 0 alias_override_with_at = Some 0
        \<and> never_prepared (alias_override_with_at 0) \<and> aliases_at_free (alias_override_with_at 0)
        \<and> priv_parent (alias_override_with_at 0) = None"
    by (simp add: alias_override_with_at_def example_defs getTopmostParentQuery_def isRootQuery_def
          never_prepared_def aliases_at_free_def at_free_def)
  with alias_override_with_at_nodes show ?thesis unfolding valid_tree_def by blast
qed

lemma placeholders_of_alias_override:
  "placeholders ''FOR doc IN @@collection_1 FILTER x.@oops.@path_2 == @filter_3 RETURN doc''
     = [''@collection_1'', ''oops'', ''path_2'', ''filter_3'']"
  by (simp add: placeholders.simps(2) is_word_def is_alpha_def is_digit_def)



end
